theory Spec2Isabelle
  imports Main
begin

section \<open>Values, objects and the heap\<close>

text \<open>
  The store of \<^verbatim>\<open>src/index.js\<close> keeps three closure variables: \<^verbatim>\<open>state\<close>,
  \<^verbatim>\<open>listeners\<close> (an array) and \<^verbatim>\<open>onListeners\<close> (a Map from key to array).
  Objects and arrays are reference values in JavaScript, and several properties of the
  store depend on which references are shared, so both live in an explicit heap:
  an object is an address into \<open>objs\<close>, an array is an address into \<open>arrs\<close>.

  An object's contents are its own enumerable properties in enumeration order, as an
  association list; a well-formed object has distinct keys. Prototype properties,
  the special ordering of integer-like keys, and floating point numbers are outside the model.
\<close>

datatype jsval =
    Undefined
  | Null
  | Bool bool
  | Num int
  | NaN
  | Str string
  | Ref nat

type_synonym object = "(string \<times> jsval) list"

text \<open>JavaScript's \<^verbatim>\<open>ToBoolean\<close>, used by \<^verbatim>\<open>state || {}\<close>.\<close>

fun truthy :: "jsval \<Rightarrow> bool" where
  "truthy Undefined = False"
| "truthy Null = False"
| "truthy (Bool b) = b"
| "truthy (Num n) = (n \<noteq> 0)"
| "truthy NaN = False"
| "truthy (Str s) = (s \<noteq> [])"
| "truthy (Ref a) = True"

text \<open>
  Observer callbacks are caller-supplied code. What such code can do to the store is to
  call its four operations or to throw; a callback is a name (for the trace) and the
  sequence of these actions that its body performs. \<open>SetState U ow\<close> is
  \<^verbatim>\<open>store.setState({...U}, ow)\<close> with a fresh object literal; an absent \<open>effect\<close>
  argument is \<open>None\<close>.
\<close>

datatype cmd =
    SetState object bool
  | Subscribe fn "fn option"
  | On string fn "fn option"
  | GetState
  | Throw
and fn = Fn (fname: string) (body: "cmd list")

text \<open>The observer record \<^verbatim>\<open>{ _li: callback, _ef: effect }\<close>.\<close>

record observer =
  li :: fn
  ef :: fn

text \<open>
  What the outside world sees of a run: every invocation of a callback with its argument,
  every value that \<^verbatim>\<open>getState()\<close> handed to a callback, and every exception thrown.
\<close>

datatype event = Invoked string jsval | Got jsval | Raised

record world =
  state :: jsval
  listeners :: nat
  onListeners :: "string \<rightharpoonup> nat"
  objs :: "nat \<Rightarrow> object"
  next_obj :: nat
  arrs :: "nat \<Rightarrow> observer list"
  next_arr :: nat
  trace :: "event list"

datatype outcome = Done | Threw

text \<open>
  A run returns normally (\<open>Done\<close>) or by an exception (\<open>Threw\<close>), in both cases with
  the world it left behind; \<open>None\<close> is a run that did not finish within its fuel.
\<close>

type_synonym result = "(outcome \<times> world) option"

definition andThen :: "result \<Rightarrow> (world \<Rightarrow> result) \<Rightarrow> result" where
  "andThen r k = (case r of
      None \<Rightarrow> None
    | Some (Threw, w) \<Rightarrow> Some (Threw, w)
    | Some (Done, w) \<Rightarrow> k w)"

section \<open>Object operations\<close>

text \<open>\<^verbatim>\<open>obj[k] = v\<close>: an existing key keeps its place, a new key is appended.\<close>

fun set_prop :: "object \<Rightarrow> string \<Rightarrow> jsval \<Rightarrow> object" where
  "set_prop [] k v = [(k, v)]"
| "set_prop ((k', v') # ps) k v =
     (if k' = k then (k, v) # ps else (k', v') # set_prop ps k v)"

text \<open>
  The own enumerable properties of a value; a primitive contributes none (the index properties
  of a string are outside the model).
\<close>

fun props :: "world \<Rightarrow> jsval \<Rightarrow> object" where
  "props w (Ref a) = objs w a"
| "props w _ = []"

text \<open>\<^verbatim>\<open>v[k]\<close>: the value under an own key, \<^verbatim>\<open>undefined\<close> when there is none.\<close>

definition get_prop :: "world \<Rightarrow> jsval \<Rightarrow> string \<Rightarrow> jsval" where
  "get_prop w v k = (case map_of (props w v) k of None \<Rightarrow> Undefined | Some x \<Rightarrow> x)"

text \<open>\<^verbatim>\<open>Object.keys(update)\<close> for an object \<open>update\<close>.\<close>

definition keys :: "world \<Rightarrow> nat \<Rightarrow> string list" where
  "keys w a = map fst (objs w a)"

text \<open>
  Modelled from the spec: \<^verbatim>\<open>assign\<close> is imported from \<^verbatim>\<open>./util\<close>, which is not among
  the sources. The spec describes the merge as: start from a copy of the current state, then
  for each key in \<open>update\<close>, set/overwrite that key's value in the copy. So
  \<open>assign target source\<close> writes every property of \<open>source\<close>, in enumeration order, into the
  object at address \<open>target\<close>, and touches no other object.
\<close>

definition assign :: "nat \<Rightarrow> jsval \<Rightarrow> world \<Rightarrow> world" where
  "assign target source w =
     w\<lparr>objs := (objs w)(target :=
          fold (\<lambda>(k, v) obj. set_prop obj k v) (props w source) (objs w target))\<rparr>"

text \<open>The object literal \<^verbatim>\<open>{}\<close>, and a literal with given contents: a fresh address.\<close>

definition new_object :: "object \<Rightarrow> world \<Rightarrow> nat \<times> world" where
  "new_object obj w =
     (next_obj w, w\<lparr>objs := (objs w)(next_obj w := obj), next_obj := Suc (next_obj w)\<rparr>)"

section \<open>The store\<close>

definition noop :: fn where
  "noop = Fn ''noop'' []"

text \<open>
  \<^verbatim>\<open>createStore(state)\<close>, called in a heap \<open>os\<close> whose next free address is \<open>nx\<close>:
  \<^verbatim>\<open>listeners = []\<close>, \<^verbatim>\<open>onListeners = new Map()\<close>, \<^verbatim>\<open>state = state || {}\<close>.
\<close>

definition createStore :: "jsval \<Rightarrow> (nat \<Rightarrow> object) \<Rightarrow> nat \<Rightarrow> world" where
  "createStore st os nx =
     (let w = \<lparr>state = st, listeners = 0, onListeners = Map.empty,
               objs = os, next_obj = nx,
               arrs = (\<lambda>_. []), next_arr = Suc 0, trace = []\<rparr>
      in if truthy st then w
         else (let (a, w') = new_object [] w in w'\<lparr>state := Ref a\<rparr>))"

definition getState :: "world \<Rightarrow> jsval" where
  "getState w = state w"

text \<open>\<^verbatim>\<open>subscribe(listener, effect = noop)\<close>: push onto the \<^verbatim>\<open>listeners\<close> array.\<close>

definition subscribe :: "fn \<Rightarrow> fn option \<Rightarrow> world \<Rightarrow> world" where
  "subscribe listener effect w =
     (let entry = \<lparr>li = listener, ef = (case effect of None \<Rightarrow> noop | Some e \<Rightarrow> e)\<rparr>
      in w\<lparr>arrs := (arrs w)(listeners w := arrs w (listeners w) @ [entry])\<rparr>)"

text \<open>
  \<^verbatim>\<open>on(stateSlice, callback, effect = noop)\<close>: create the key's array when the Map has
  none, then push onto it.
\<close>

definition on :: "string \<Rightarrow> fn \<Rightarrow> fn option \<Rightarrow> world \<Rightarrow> world" where
  "on stateSlice callback effect w =
     (let w1 = (case onListeners w stateSlice of
                  Some a \<Rightarrow> w
                | None \<Rightarrow> w\<lparr>onListeners := (onListeners w)(stateSlice \<mapsto> next_arr w),
                             arrs := (arrs w)(next_arr w := []),
                             next_arr := Suc (next_arr w)\<rparr>);
          entry = \<lparr>li = callback, ef = (case effect of None \<Rightarrow> noop | Some e \<Rightarrow> e)\<rparr>;
          a = the (onListeners w1 stateSlice)
      in w1\<lparr>arrs := (arrs w1)(a := arrs w1 a @ [entry])\<rparr>)"

text \<open>
  Line 23: \<^verbatim>\<open>state = overwrite ? update : assign(assign({}, state), update)\<close>,
  for an object \<open>update\<close>.
\<close>

definition update_state :: "nat \<Rightarrow> bool \<Rightarrow> world \<Rightarrow> world" where
  "update_state update overwrite w =
     (if overwrite then w\<lparr>state := Ref update\<rparr>
      else (let (a, w1) = new_object [] w;
                w2 = assign a (state w1) w1;
                w3 = assign a (Ref update) w2
            in w3\<lparr>state := Ref a\<rparr>))"

text \<open>
  \<open>setState\<close> and the code it runs call one another (a callback may call
  \<^verbatim>\<open>setState\<close> again), so they are one recursive function \<open>run\<close> over the piece of
  code to execute:
  \<^item> \<open>Exec cs\<close>: the actions \<open>cs\<close> of a callback body, in sequence;
  \<^item> \<open>Call f v\<close>: the invocation \<^verbatim>\<open>f(v)\<close> of a callback;
  \<^item> \<open>SetStateT update overwrite\<close>: the body of \<^verbatim>\<open>setState\<close>;
  \<^item> \<open>LoopI cur i\<close>: the loop over \<^verbatim>\<open>currentListeners\<close> from index \<open>i\<close>, where \<open>cur\<close> is
    the array reference held by \<^verbatim>\<open>currentListeners\<close>;
  \<^item> \<open>LoopJ ks\<close>: the loop over \<^verbatim>\<open>stateChanged\<close>, with the keys \<open>ks\<close> still to visit;
  \<^item> \<open>LoopK ls key k\<close>: the loop over the array \<open>ls\<close> of one key from index \<open>k\<close>.
  The arrays are read through their references at every step, as the loops re-read
  \<^verbatim>\<open>.length\<close> and the element, and \<^verbatim>\<open>state\<close> is read at every call. Every nested
  piece of code gets one unit of fuel less.
\<close>

datatype task =
    Exec "cmd list"
  | Call fn jsval
  | SetStateT nat bool
  | LoopI nat nat
  | LoopJ "string list"
  | LoopK nat string nat

fun run :: "nat \<Rightarrow> task \<Rightarrow> world \<Rightarrow> result" where
  "run 0 t w = None"
| "run (Suc n) (Exec []) w = Some (Done, w)"
| "run (Suc n) (Exec (c # cs)) w =
     andThen
       (case c of
          SetState U overwrite \<Rightarrow>
            (let (update, w1) = new_object U w in run n (SetStateT update overwrite) w1)
        | Subscribe listener effect \<Rightarrow> Some (Done, subscribe listener effect w)
        | On stateSlice callback effect \<Rightarrow> Some (Done, on stateSlice callback effect w)
        | GetState \<Rightarrow> Some (Done, w\<lparr>trace := trace w @ [Got (getState w)]\<rparr>)
        | Throw \<Rightarrow> Some (Threw, w\<lparr>trace := trace w @ [Raised]\<rparr>))
       (\<lambda>w'. run n (Exec cs) w')"
| "run (Suc n) (Call f v) w =
     run n (Exec (body f)) (w\<lparr>trace := trace w @ [Invoked (fname f) v]\<rparr>)"
| "run (Suc n) (SetStateT update overwrite) w =
     (let w1 = update_state update overwrite w;
          currentListeners = listeners w1
      in andThen (run n (LoopI currentListeners 0) w1)
           (\<lambda>w2. let stateChanged = keys w2 update in run n (LoopJ stateChanged) w2))"
| "run (Suc n) (LoopI cur i) w =
     (if i < length (arrs w cur) then
        andThen (run n (Call (li (arrs w cur ! i)) (state w)) w)
          (\<lambda>w1. andThen (run n (Call (ef (arrs w1 cur ! i)) (state w1)) w1)
            (\<lambda>w2. run n (LoopI cur (Suc i)) w2))
      else Some (Done, w))"
| "run (Suc n) (LoopJ []) w = Some (Done, w)"
| "run (Suc n) (LoopJ (key # ks)) w =
     (case onListeners w key of
        None \<Rightarrow> run n (LoopJ ks) w
      | Some ls \<Rightarrow> andThen (run n (LoopK ls key 0) w) (\<lambda>w'. run n (LoopJ ks) w'))"
| "run (Suc n) (LoopK ls key k) w =
     (if k < length (arrs w ls) then
        andThen (run n (Call (li (arrs w ls ! k)) (get_prop w (state w) key)) w)
          (\<lambda>w1. andThen (run n (Call (ef (arrs w1 ls ! k)) (get_prop w1 (state w1) key)) w1)
            (\<lambda>w2. run n (LoopK ls key (Suc k)) w2))
      else Some (Done, w))"

text \<open>\<^verbatim>\<open>setState(update, overwrite)\<close> with \<open>n\<close> units of fuel.\<close>

definition setState :: "nat \<Rightarrow> nat \<Rightarrow> bool \<Rightarrow> world \<Rightarrow> result" where
  "setState n update overwrite w = run n (SetStateT update overwrite) w"

section \<open>Vocabulary of the properties\<close>

subsection \<open>Runs that return\<close>

text \<open>A run returns \<open>r\<close> when it does so with any sufficient amount of fuel.\<close>

definition finishes :: "(nat \<Rightarrow> result) \<Rightarrow> outcome \<times> world \<Rightarrow> bool" where
  "finishes f r = (\<exists>n0. \<forall>n\<ge>n0. f n = Some r)"

subsection \<open>Observers that leave the store alone\<close>

text \<open>
  Callbacks may call the store again, and a nested \<^verbatim>\<open>setState\<close> or a registration changes
  what the rest of a pass sees. The properties of a single pass are stated for observers whose
  callbacks are quiet (they read the state with \<^verbatim>\<open>getState()\<close> or throw) or, where
  nothing may throw, reading (they only read the state). Only the observers that the pass can
  reach matter: the whole-state observers and those of the keys \<open>ks\<close> of the update.
\<close>

fun quiet_cmd :: "cmd \<Rightarrow> bool" where
  "quiet_cmd GetState = True"
| "quiet_cmd Throw = True"
| "quiet_cmd _ = False"

definition quiet_fn :: "fn \<Rightarrow> bool" where
  "quiet_fn f = list_all quiet_cmd (body f)"

definition quiet_obs :: "observer \<Rightarrow> bool" where
  "quiet_obs ob = (quiet_fn (li ob) \<and> quiet_fn (ef ob))"

definition quiet_slice :: "world \<Rightarrow> string \<Rightarrow> bool" where
  "quiet_slice w key = (case onListeners w key of
      None \<Rightarrow> True
    | Some ls \<Rightarrow> list_all quiet_obs (arrs w ls))"

definition quiet :: "world \<Rightarrow> string list \<Rightarrow> bool" where
  "quiet w ks = (list_all quiet_obs (arrs w (listeners w)) \<and> list_all (quiet_slice w) ks)"

definition reading_fn :: "fn \<Rightarrow> bool" where
  "reading_fn f = list_all (\<lambda>c. c = GetState) (body f)"

definition reading_obs :: "observer \<Rightarrow> bool" where
  "reading_obs ob = (reading_fn (li ob) \<and> reading_fn (ef ob))"

definition reading_slice :: "world \<Rightarrow> string \<Rightarrow> bool" where
  "reading_slice w key = (case onListeners w key of
      None \<Rightarrow> True
    | Some ls \<Rightarrow> list_all reading_obs (arrs w ls))"

definition reading :: "world \<Rightarrow> string list \<Rightarrow> bool" where
  "reading w ks = (list_all reading_obs (arrs w (listeners w)) \<and> list_all (reading_slice w) ks)"

subsection \<open>The order of a fan-out pass\<close>

text \<open>
  The invocations that one pass over an array of observers makes with the argument \<open>v\<close>:
  for every observer in order, \<^verbatim>\<open>_li(v)\<close> and then \<^verbatim>\<open>_ef(v)\<close>.
\<close>

definition calls :: "observer list \<Rightarrow> jsval \<Rightarrow> (fn \<times> jsval) list" where
  "calls obs v = concat (map (\<lambda>ob. [(li ob, v), (ef ob, v)]) obs)"

text \<open>
  The invocations for one key of the update, with the state's value at that key: none when the
  Map has no entry for the key.
\<close>

definition slice_calls :: "world \<Rightarrow> string \<Rightarrow> (fn \<times> jsval) list" where
  "slice_calls w key = (case onListeners w key of
      None \<Rightarrow> []
    | Some ls \<Rightarrow> calls (arrs w ls) (get_prop w (state w) key))"

text \<open>
  The invocations of a whole pass, in order: the whole-state observers with the state, then
  the observers of each key in \<open>ks\<close>.
\<close>

definition schedule :: "world \<Rightarrow> string list \<Rightarrow> (fn \<times> jsval) list" where
  "schedule w ks = calls (arrs w (listeners w)) (state w) @ concat (map (slice_calls w) ks)"

text \<open>
  What the actions of a quiet body add to the trace, and how the body ends, while the current
  state is \<open>s\<close>; then the same for one invocation \<open>(f, v)\<close>, and for a sequence of invocations,
  which stops at the first one that throws. (An action that is not quiet is passed over; these
  functions are used for quiet bodies only.)
\<close>

fun replay :: "jsval \<Rightarrow> cmd list \<Rightarrow> event list \<times> outcome" where
  "replay s [] = ([], Done)"
| "replay s (Throw # cs) = ([Raised], Threw)"
| "replay s (GetState # cs) = (Got s # fst (replay s cs), snd (replay s cs))"
| "replay s (c # cs) = replay s cs"

definition fire :: "jsval \<Rightarrow> fn \<times> jsval \<Rightarrow> event list \<times> outcome" where
  "fire s c = (Invoked (fname (fst c)) (snd c) # fst (replay s (body (fst c))),
               snd (replay s (body (fst c))))"

fun play :: "jsval \<Rightarrow> (fn \<times> jsval) list \<Rightarrow> event list \<times> outcome" where
  "play s [] = ([], Done)"
| "play s (c # cs) =
     (if snd (fire s c) = Threw then fire s c
      else (fst (fire s c) @ fst (play s cs), snd (play s cs)))"

text \<open>
  The trace of one invocation \<open>(f, v)\<close> of a reading callback while the state is \<open>s\<close>: the
  invocation, then one \<open>Got s\<close> for each \<^verbatim>\<open>getState()\<close> of the body.
\<close>

definition announce :: "jsval \<Rightarrow> fn \<times> jsval \<Rightarrow> event list" where
  "announce s c = Invoked (fname (fst c)) (snd c) # map (\<lambda>_. Got s) (body (fst c))"

text \<open>The trace of notifying one observer with \<open>v\<close>: \<^verbatim>\<open>_li(v)\<close>, then \<^verbatim>\<open>_ef(v)\<close>.\<close>

definition notify :: "jsval \<Rightarrow> jsval \<Rightarrow> observer \<Rightarrow> event list" where
  "notify s v ob = announce s (li ob, v) @ announce s (ef ob, v)"

text \<open>
  The trace of notifying the observers of one key, in the order of their registration, with the
  state's value at that key.
\<close>

definition slice_events :: "world \<Rightarrow> string \<Rightarrow> event list" where
  "slice_events w key = (case onListeners w key of
      None \<Rightarrow> []
    | Some ls \<Rightarrow> concat (map (notify (state w) (get_prop w (state w) key)) (arrs w ls)))"

text \<open>
  The trace of a whole fan-out pass over reading observers in the world \<open>w\<close>, for an update with
  the keys \<open>ks\<close>: phase 1, the whole-state observers in the order of their registration, each
  with the state; then phase 2, the keys in their order.
\<close>

definition fanout :: "world \<Rightarrow> string list \<Rightarrow> event list" where
  "fanout w ks =
     concat (map (notify (state w) (state w)) (arrs w (listeners w))) @
     concat (map (slice_events w) ks)"

text \<open>The names of the callbacks held by an array of observers, and of those under one key.\<close>

definition names_of :: "observer list \<Rightarrow> string list" where
  "names_of obs = concat (map (\<lambda>ob. [fname (li ob), fname (ef ob)]) obs)"

definition slice_names :: "world \<Rightarrow> string \<Rightarrow> string list" where
  "slice_names w key = (case onListeners w key of
      None \<Rightarrow> []
    | Some ls \<Rightarrow> names_of (arrs w ls))"

subsection \<open>Exceptions and the heap\<close>

text \<open>
  The events of a finished run in which an exception ends everything: a run that returns
  normally has thrown nothing, and a run that throws has \<open>Raised\<close> as its last event and
  nowhere before. The trace \<open>t'\<close> extends \<open>t\<close> by such events.
\<close>

definition sealed :: "outcome \<Rightarrow> event list \<Rightarrow> bool" where
  "sealed r evs = (case r of
      Done \<Rightarrow> Raised \<notin> set evs
    | Threw \<Rightarrow> evs \<noteq> [] \<and> last evs = Raised \<and> Raised \<notin> set (butlast evs))"

definition seals :: "event list \<Rightarrow> outcome \<Rightarrow> event list \<Rightarrow> bool" where
  "seals t r t' = (\<exists>evs. t' = t @ evs \<and> sealed r evs)"

text \<open>
  Every object allocated in \<open>w\<close> has the same contents in \<open>w'\<close>, and nothing was deallocated.
\<close>

definition frame :: "world \<Rightarrow> world \<Rightarrow> bool" where
  "frame w w' = (next_obj w \<le> next_obj w' \<and> (\<forall>p<next_obj w. objs w' p = objs w p))"

text \<open>One step of \<^verbatim>\<open>assign\<close>: writing one property of the source into the target.\<close>

abbreviation (input) write_prop :: "string \<times> jsval \<Rightarrow> object \<Rightarrow> object" where
  "write_prop \<equiv> (\<lambda>(k, v) obj. set_prop obj k v)"

section \<open>Example stores\<close>

text \<open>
  The store of the example in the source's documentation comment: \<^verbatim>\<open>createStore()\<close> with a
  subscriber \<open>W\<close>, which reads the state, and an observer \<open>L\<close> of the key \<^verbatim>\<open>a\<close>; then an
  update object \<open>U\<close>, which gets the address 1.
\<close>

definition doc_store :: "object \<Rightarrow> world" where
  "doc_store U =
     snd (new_object U
       (on ''a'' (Fn ''L'' []) None
         (subscribe (Fn ''W'' [GetState]) None
           (createStore Undefined (\<lambda>_. []) 0))))"

text \<open>
  A store created on the state \<^verbatim>\<open>{a: 1, b: 2}\<close> (at address 0) with one subscriber, and the
  update \<^verbatim>\<open>{b: 3, c: 4}\<close> at address 1; the same store with the update \<^verbatim>\<open>{}\<close>.
\<close>

definition merge_store :: world where
  "merge_store =
     snd (new_object [(''b'', Num 3), (''c'', Num 4)]
       (subscribe (Fn ''W'' [GetState]) None
         (createStore (Ref 0) ((\<lambda>_. [])(0 := [(''a'', Num 1), (''b'', Num 2)])) 1)))"

definition unchanged_store :: world where
  "unchanged_store =
     snd (new_object []
       (subscribe (Fn ''W'' [GetState]) None
         (createStore (Ref 0) ((\<lambda>_. [])(0 := [(''a'', Num 1), (''b'', Num 2)])) 1)))"

text \<open>
  A store whose only subscriber \<open>A\<close> subscribes another observer \<open>B\<close> when it is notified, and
  the update \<^verbatim>\<open>{}\<close> at address 1.
\<close>

definition late_store :: world where
  "late_store =
     snd (new_object []
       (subscribe (Fn ''A'' [Subscribe (Fn ''B'' []) None]) None
         (createStore Undefined (\<lambda>_. []) 0)))"

text \<open>
  A store with the subscribers \<open>W\<close>, \<open>T\<close> and \<open>V\<close>, of which \<open>T\<close> throws after reading the
  state, an observer \<open>L\<close> of the key \<^verbatim>\<open>a\<close>, and the update \<^verbatim>\<open>{a: 1}\<close> at address 1.
\<close>

definition faulty_store :: world where
  "faulty_store =
     snd (new_object [(''a'', Num 1)]
       (on ''a'' (Fn ''L'' []) None
         (subscribe (Fn ''V'' []) None
           (subscribe (Fn ''T'' [GetState, Throw, GetState]) None
             (subscribe (Fn ''W'' []) None
               (createStore Undefined (\<lambda>_. []) 0))))))"

section \<open>Lemmas\<close>

subsection \<open>Runs with enough fuel\<close>

lemma finishes_const: "finishes (\<lambda>n. Some r) r"
  by (simp add: finishes_def)

lemma finishes_andThen_Done:
  assumes "finishes f (Done, w1)" and "finishes (\<lambda>n. g n w1) r"
  shows "finishes (\<lambda>n. andThen (f n) (g n)) r"
proof -
  from assms(1) obtain a where a: "\<forall>n\<ge>a. f n = Some (Done, w1)"
    by (auto simp: finishes_def)
  from assms(2) obtain b where b: "\<forall>n\<ge>b. g n w1 = Some r"
    by (auto simp: finishes_def)
  have "\<forall>n\<ge>max a b. andThen (f n) (g n) = Some r"
    using a b by (simp add: andThen_def)
  then show ?thesis unfolding finishes_def by blast
qed

lemma finishes_andThen_Threw:
  assumes "finishes f (Threw, w1)"
  shows "finishes (\<lambda>n. andThen (f n) (g n)) (Threw, w1)"
proof -
  from assms obtain a where a: "\<forall>n\<ge>a. f n = Some (Threw, w1)"
    by (auto simp: finishes_def)
  then have "\<forall>n\<ge>a. andThen (f n) (g n) = Some (Threw, w1)"
    by (simp add: andThen_def)
  then show ?thesis unfolding finishes_def by blast
qed

lemma finishes_step:
  assumes "finishes F r" and "\<And>n. f (Suc n) = F n"
  shows "finishes f r"
proof -
  from assms(1) obtain a where a: "\<forall>n\<ge>a. F n = Some r"
    by (auto simp: finishes_def)
  have "f n = Some r" if "n \<ge> Suc a" for n
  proof -
    from that obtain m where "n = Suc m" "m \<ge> a" by (cases n) auto
    then show ?thesis using a assms(2) by simp
  qed
  then show ?thesis unfolding finishes_def by blast
qed

lemma finishes_unique: "finishes f r \<Longrightarrow> finishes f r' \<Longrightarrow> r = r'"
proof -
  assume "finishes f r" and "finishes f r'"
  then obtain a b where a: "\<forall>n\<ge>a. f n = Some r" and b: "\<forall>n\<ge>b. f n = Some r'"
    by (auto simp: finishes_def)
  from a[rule_format, of "max a b"] b[rule_format, of "max a b"]
  show "r = r'" by simp
qed

subsection \<open>A fan-out pass over quiet observers\<close>

text \<open>
  A quiet body, an invocation, each of the three loops and finally \<^verbatim>\<open>setState\<close> itself return,
  with the outcome and the trace that \<open>play\<close> computes from the order of the pass.
\<close>

lemma run_Exec_quiet:
  "list_all quiet_cmd cs \<Longrightarrow> length cs < n \<Longrightarrow>
   run n (Exec cs) w =
     Some (snd (replay (state w) cs), w\<lparr>trace := trace w @ fst (replay (state w) cs)\<rparr>)"
proof (induction cs arbitrary: n w)
  case Nil
  then show ?case by (cases n) simp_all
next
  case (Cons c cs)
  then obtain m where n: "n = Suc m" and m: "length cs < m" by (cases n) auto
  from Cons.prems have q: "quiet_cmd c" "list_all quiet_cmd cs" by simp_all
  show ?case
  proof (cases c)
    case GetState
    then show ?thesis using Cons.IH[OF q(2) m] n
      by (simp add: andThen_def getState_def)
  next
    case Throw
    then show ?thesis using n by (simp add: andThen_def)
  qed (use q in simp_all)
qed

lemma finishes_Call_quiet:
  assumes "quiet_fn f"
  shows "finishes (\<lambda>n. run n (Call f v) w)
           (snd (fire (state w) (f, v)), w\<lparr>trace := trace w @ fst (fire (state w) (f, v))\<rparr>)"
proof -
  have "run n (Call f v) w =
          Some (snd (fire (state w) (f, v)), w\<lparr>trace := trace w @ fst (fire (state w) (f, v))\<rparr>)"
    if "n \<ge> length (body f) + 2" for n
  proof -
    from that obtain m where n: "n = Suc m" and m: "length (body f) < m" by (cases n) auto
    show ?thesis
      using run_Exec_quiet[OF assms[unfolded quiet_fn_def] m, of "w\<lparr>trace := trace w @ [Invoked (fname f) v]\<rparr>"] n
      by (simp add: fire_def)
  qed
  then show ?thesis unfolding finishes_def by blast
qed

lemma props_trace [simp]: "props (w\<lparr>trace := t\<rparr>) v = props w v"
  by (cases v) simp_all

lemma get_prop_trace [simp]: "get_prop (w\<lparr>trace := t\<rparr>) v k = get_prop w v k"
  by (simp add: get_prop_def)

lemma calls_Nil [simp]: "calls [] v = []"
  by (simp add: calls_def)

lemma calls_Cons [simp]: "calls (ob # obs) v = (li ob, v) # (ef ob, v) # calls obs v"
  by (simp add: calls_def)

lemma calls_append [simp]: "calls (xs @ ys) v = calls xs v @ calls ys v"
  by (simp add: calls_def)

lemma finishes_loop:
  fixes L :: "nat \<Rightarrow> nat \<Rightarrow> world \<Rightarrow> result" and pay :: "world \<Rightarrow> jsval"
  assumes step: "\<And>n i w. L (Suc n) i w =
     (if i < length (arrs w a) then
        andThen (run n (Call (li (arrs w a ! i)) (pay w)) w)
          (\<lambda>w1. andThen (run n (Call (ef (arrs w1 a ! i)) (pay w1)) w1)
            (\<lambda>w2. L n (Suc i) w2))
      else Some (Done, w))"
    and pay: "\<And>w t. pay (w\<lparr>trace := t\<rparr>) = pay w"
    and quiet: "list_all quiet_obs (arrs w a)"
  shows "finishes (\<lambda>n. L n i w)
           (snd (play (state w) (calls (drop i (arrs w a)) (pay w))),
            w\<lparr>trace := trace w @ fst (play (state w) (calls (drop i (arrs w a)) (pay w)))\<rparr>)"
  using quiet
proof (induction "length (arrs w a) - i" arbitrary: i w)
  case 0
  then have "\<And>n. L (Suc n) i w = Some (Done, w)" by (simp add: step)
  from finishes_step[of "\<lambda>n. Some (Done, w)" "(Done, w)" "\<lambda>n. L n i w", OF finishes_const this]
  show ?case using 0 by simp
next
  case (Suc d)
  let ?s = "state w" and ?v = "pay w"
  define ob where "ob = arrs w a ! i"
  from Suc.hyps(2) have i: "i < length (arrs w a)" by simp
  then have dr: "drop i (arrs w a) = ob # drop (Suc i) (arrs w a)"
    by (simp add: ob_def Cons_nth_drop_Suc)
  from Suc.prems i have qo: "quiet_fn (li ob)" "quiet_fn (ef ob)"
    by (auto simp: ob_def quiet_obs_def list_all_length)
  define e1 where "e1 = fire ?s (li ob, ?v)"
  define w1 where "w1 = w\<lparr>trace := trace w @ fst e1\<rparr>"
  define e2 where "e2 = fire ?s (ef ob, ?v)"
  define w2 where "w2 = w1\<lparr>trace := trace w1 @ fst e2\<rparr>"
  define rest where "rest = play ?s (calls (drop (Suc i) (arrs w a)) ?v)"
  have c1: "finishes (\<lambda>n. run n (Call (li ob) ?v) w) (snd e1, w1)"
    unfolding e1_def w1_def by (rule finishes_Call_quiet[OF qo(1)])
  have c2: "finishes (\<lambda>n. run n (Call (ef ob) ?v) w1) (snd e2, w2)"
    using finishes_Call_quiet[OF qo(2), of ?v w1] unfolding e2_def w2_def by (simp add: w1_def)
  have w1_same: "arrs w1 = arrs w" "pay w1 = ?v" "state w1 = ?s"
    by (simp_all add: w1_def pay)
  have w2_same: "arrs w2 = arrs w" "pay w2 = ?v" "state w2 = ?s"
    by (simp_all add: w2_def w1_def pay)
  have ih: "finishes (\<lambda>n. L n (Suc i) w2) (snd rest, w2\<lparr>trace := trace w2 @ fst rest\<rparr>)"
  proof -
    have "d = length (arrs w2 a) - Suc i" using Suc.hyps(2) by (simp add: w2_same)
    moreover have "list_all quiet_obs (arrs w2 a)" using Suc.prems by (simp add: w2_same)
    ultimately show ?thesis
      using Suc.hyps(1)[of w2 "Suc i"] by (simp add: w2_same rest_def)
  qed
  let ?inner = "\<lambda>n w1. andThen (run n (Call (ef (arrs w1 a ! i)) (pay w1)) w1)
                         (\<lambda>w2. L n (Suc i) w2)"
  let ?F = "\<lambda>n. andThen (run n (Call (li ob) ?v) w) (?inner n)"
  have stepi: "\<And>n. L (Suc n) i w = ?F n"
    using i by (simp add: step ob_def)
  have inner: "?inner n w1 = andThen (run n (Call (ef ob) ?v) w1) (\<lambda>w2. L n (Suc i) w2)" for n
    by (simp add: w1_same ob_def)
  have pl: "play ?s (calls (drop i (arrs w a)) ?v) =
     (if snd e1 = Threw then e1
      else if snd e2 = Threw then (fst e1 @ fst e2, Threw)
      else (fst e1 @ fst e2 @ fst rest, snd rest))"
    by (auto simp: dr e1_def e2_def rest_def prod_eq_iff)
  show ?case
  proof (cases "snd e1")
    case Threw
    have "finishes ?F (Threw, w1)"
      using finishes_andThen_Threw[of "\<lambda>n. run n (Call (li ob) ?v) w" w1 ?inner] c1 Threw
      by simp
    from finishes_step[OF this stepi] show ?thesis
      using Threw by (simp add: pl w1_def)
  next
    case Done
    show ?thesis
    proof (cases "snd e2")
      case Threw
      have "finishes (\<lambda>n. ?inner n w1) (Threw, w2)"
        using finishes_andThen_Threw[of "\<lambda>n. run n (Call (ef ob) ?v) w1" w2 "\<lambda>n w2. L n (Suc i) w2"]
          c2 Threw by (simp add: inner)
      from finishes_andThen_Done[of "\<lambda>n. run n (Call (li ob) ?v) w" w1 ?inner, OF _ this]
      have "finishes ?F (Threw, w2)" using c1 \<open>snd e1 = Done\<close> by simp
      from finishes_step[OF this stepi] show ?thesis
        using Threw \<open>snd e1 = Done\<close> by (simp add: pl w1_def w2_def)
    next
      case Done
      have "finishes (\<lambda>n. ?inner n w1) (snd rest, w2\<lparr>trace := trace w2 @ fst rest\<rparr>)"
        using finishes_andThen_Done[of "\<lambda>n. run n (Call (ef ob) ?v) w1" w2 "\<lambda>n w2. L n (Suc i) w2", OF _ ih]
          c2 Done by (simp add: inner)
      from finishes_andThen_Done[of "\<lambda>n. run n (Call (li ob) ?v) w" w1 ?inner, OF _ this]
      have "finishes ?F (snd rest, w2\<lparr>trace := trace w2 @ fst rest\<rparr>)"
        using c1 \<open>snd e1 = Done\<close> by simp
      from finishes_step[OF this stepi] show ?thesis
        using Done \<open>snd e1 = Done\<close> by (simp add: pl w1_def w2_def)
    qed
  qed
qed

lemma finishes_LoopI_quiet:
  assumes "list_all quiet_obs (arrs w cur)"
  shows "finishes (\<lambda>n. run n (LoopI cur i) w)
           (snd (play (state w) (calls (drop i (arrs w cur)) (state w))),
            w\<lparr>trace := trace w @ fst (play (state w) (calls (drop i (arrs w cur)) (state w)))\<rparr>)"
  by (rule finishes_loop[where L = "\<lambda>n i w. run n (LoopI cur i) w" and pay = state, OF _ _ assms])
    simp_all

lemma finishes_LoopK_quiet:
  assumes "list_all quiet_obs (arrs w ls)"
  shows "finishes (\<lambda>n. run n (LoopK ls key k) w)
           (snd (play (state w) (calls (drop k (arrs w ls)) (get_prop w (state w) key))),
            w\<lparr>trace := trace w @
                 fst (play (state w) (calls (drop k (arrs w ls)) (get_prop w (state w) key)))\<rparr>)"
  by (rule finishes_loop[where L = "\<lambda>n k w. run n (LoopK ls key k) w"
        and pay = "\<lambda>w. get_prop w (state w) key", OF _ _ assms])
    simp_all

lemma slice_calls_trace [simp]: "slice_calls (w\<lparr>trace := t\<rparr>) = slice_calls w"
  by (rule ext) (simp add: slice_calls_def split: option.splits)

lemma quiet_slice_trace [simp]: "quiet_slice (w\<lparr>trace := t\<rparr>) = quiet_slice w"
  by (rule ext) (simp add: quiet_slice_def split: option.splits)

lemma play_append:
  "play s (xs @ ys) =
     (if snd (play s xs) = Threw then play s xs
      else (fst (play s xs) @ fst (play s ys), snd (play s ys)))"
  by (induction xs) (auto simp: prod_eq_iff)

lemma finishes_LoopJ_quiet:
  assumes "list_all (quiet_slice w) ks"
  shows "finishes (\<lambda>n. run n (LoopJ ks) w)
           (snd (play (state w) (concat (map (slice_calls w) ks))),
            w\<lparr>trace := trace w @ fst (play (state w) (concat (map (slice_calls w) ks)))\<rparr>)"
  using assms
proof (induction ks arbitrary: w)
  case Nil
  have "\<And>n. run (Suc n) (LoopJ []) w = Some (Done, w)" by simp
  from finishes_step[of "\<lambda>n. Some (Done, w)" "(Done, w)" "\<lambda>n. run n (LoopJ []) w",
      OF finishes_const this]
  show ?case by simp
next
  case (Cons key ks)
  let ?s = "state w"
  define rest where "rest = (\<lambda>w. play (state w) (concat (map (slice_calls w) ks)))"
  have ih: "finishes (\<lambda>n. run n (LoopJ ks) w') (snd (rest w'), w'\<lparr>trace := trace w' @ fst (rest w')\<rparr>)"
    if "list_all (quiet_slice w') ks" for w'
    unfolding rest_def by (rule Cons.IH[OF that])
  show ?case
  proof (cases "onListeners w key")
    case None
    have st: "\<And>n. run (Suc n) (LoopJ (key # ks)) w = run n (LoopJ ks) w"
      using None by simp
    have "list_all (quiet_slice w) ks" using Cons.prems by simp
    from finishes_step[OF ih[OF this], of "\<lambda>n. run n (LoopJ (key # ks)) w", OF st]
    have fin: "finishes (\<lambda>n. run n (LoopJ (key # ks)) w)
                 (snd (rest w), w\<lparr>trace := trace w @ fst (rest w)\<rparr>)" .
    have "slice_calls w key = []" using None by (simp add: slice_calls_def)
    then show ?thesis using fin by (simp add: rest_def)
  next
    case (Some ls)
    define p where "p = play ?s (slice_calls w key)"
    define w1 where "w1 = w\<lparr>trace := trace w @ fst p\<rparr>"
    have q: "list_all quiet_obs (arrs w ls)"
      using Cons.prems Some by (simp add: quiet_slice_def)
    have k: "finishes (\<lambda>n. run n (LoopK ls key 0) w) (snd p, w1)"
      using finishes_LoopK_quiet[OF q, of key 0] Some
      by (simp add: p_def w1_def slice_calls_def)
    let ?F = "\<lambda>n. andThen (run n (LoopK ls key 0) w) (\<lambda>w'. run n (LoopJ ks) w')"
    have st: "\<And>n. run (Suc n) (LoopJ (key # ks)) w = ?F n"
      using Some by simp
    have pl: "play ?s (concat (map (slice_calls w) (key # ks))) =
       (if snd p = Threw then p else (fst p @ fst (rest w), snd (rest w)))"
      by (simp add: play_append p_def rest_def)
    show ?thesis
    proof (cases "snd p")
      case Threw
      have "finishes ?F (Threw, w1)"
        using finishes_andThen_Threw[of "\<lambda>n. run n (LoopK ls key 0) w" w1 "\<lambda>n w'. run n (LoopJ ks) w'"]
          k Threw by simp
      from finishes_step[OF this, of "\<lambda>n. run n (LoopJ (key # ks)) w", OF st]
      show ?thesis unfolding pl using Threw by (simp add: w1_def)
    next
      case Done
      have "list_all (quiet_slice w1) ks" using Cons.prems by (simp add: w1_def)
      from ih[OF this] have
        "finishes (\<lambda>n. run n (LoopJ ks) w1) (snd (rest w), w1\<lparr>trace := trace w1 @ fst (rest w)\<rparr>)"
        by (simp add: rest_def w1_def)
      from finishes_andThen_Done[of "\<lambda>n. run n (LoopK ls key 0) w" w1
          "\<lambda>n w'. run n (LoopJ ks) w'", OF _ this]
      have "finishes ?F (snd (rest w), w1\<lparr>trace := trace w1 @ fst (rest w)\<rparr>)"
        using k Done by simp
      from finishes_step[OF this, of "\<lambda>n. run n (LoopJ (key # ks)) w", OF st]
      show ?thesis unfolding pl using Done by (simp add: w1_def)
    qed
  qed
qed

lemma keys_trace [simp]: "keys (w\<lparr>trace := t\<rparr>) a = keys w a"
  by (simp add: keys_def)

lemma finishes_SetStateT_quiet:
  assumes "w1 = update_state update overwrite w"
    and "quiet w1 (keys w1 update)"
  shows "finishes (\<lambda>n. setState n update overwrite w)
           (snd (play (state w1) (schedule w1 (keys w1 update))),
            w1\<lparr>trace := trace w1 @ fst (play (state w1) (schedule w1 (keys w1 update)))\<rparr>)"
proof -
  let ?s = "state w1" and ?ks = "keys w1 update"
  define p1 where "p1 = play ?s (calls (arrs w1 (listeners w1)) ?s)"
  define p2 where "p2 = play ?s (concat (map (slice_calls w1) ?ks))"
  define w2 where "w2 = w1\<lparr>trace := trace w1 @ fst p1\<rparr>"
  have q1: "list_all quiet_obs (arrs w1 (listeners w1))" and q2: "list_all (quiet_slice w1) ?ks"
    using assms(2) by (simp_all add: quiet_def)
  have i: "finishes (\<lambda>n. run n (LoopI (listeners w1) 0) w1) (snd p1, w2)"
    using finishes_LoopI_quiet[OF q1, of 0] by (simp add: p1_def w2_def)
  have j: "finishes (\<lambda>n. run n (LoopJ ?ks) w2) (snd p2, w2\<lparr>trace := trace w2 @ fst p2\<rparr>)"
    using finishes_LoopJ_quiet[of w2 ?ks] q2 by (simp add: w2_def p2_def)
  let ?G = "\<lambda>n w2. let stateChanged = keys w2 update in run n (LoopJ stateChanged) w2"
  let ?F = "\<lambda>n. andThen (run n (LoopI (listeners w1) 0) w1) (?G n)"
  have st: "\<And>n. setState (Suc n) update overwrite w = ?F n"
    by (simp add: setState_def assms(1) Let_def)
  have pl: "play ?s (schedule w1 ?ks) =
      (if snd p1 = Threw then p1 else (fst p1 @ fst p2, snd p2))"
    by (simp add: schedule_def play_append p1_def p2_def)
  show ?thesis
  proof (cases "snd p1")
    case Threw
    have "finishes ?F (Threw, w2)"
      using finishes_andThen_Threw[of "\<lambda>n. run n (LoopI (listeners w1) 0) w1" w2 ?G] i Threw
      by simp
    from finishes_step[OF this, of "\<lambda>n. setState n update overwrite w", OF st]
    show ?thesis using Threw by (simp add: pl w2_def)
  next
    case Done
    have "finishes (\<lambda>n. ?G n w2) (snd p2, w2\<lparr>trace := trace w2 @ fst p2\<rparr>)"
      using j by (simp add: w2_def)
    from finishes_andThen_Done[of "\<lambda>n. run n (LoopI (listeners w1) 0) w1" w2 ?G, OF _ this]
    have "finishes ?F (snd p2, w2\<lparr>trace := trace w2 @ fst p2\<rparr>)" using i Done by simp
    from finishes_step[OF this, of "\<lambda>n. setState n update overwrite w", OF st]
    show ?thesis using Done by (simp add: pl w2_def)
  qed
qed

subsection \<open>Objects and the assignment of the new state\<close>

lemma map_of_set_prop: "map_of (set_prop obj k v) = (map_of obj)(k \<mapsto> v)"
  by (induction obj) (auto simp: fun_eq_iff)

lemma keys_set_prop: "set (map fst (set_prop obj k v)) = insert k (set (map fst obj))"
proof (induction obj)
  case Nil
  show ?case by simp
next
  case (Cons p obj)
  then show ?case by (cases p) (simp add: insert_commute)
qed

lemma distinct_set_prop:
  "distinct (map fst obj) \<Longrightarrow> distinct (map fst (set_prop obj k v))"
proof (induction obj)
  case Nil
  show ?case by simp
next
  case (Cons p obj)
  then show ?case
    using keys_set_prop[of obj k v] by (cases p) auto
qed

lemma set_prop_fresh: "k \<notin> set (map fst obj) \<Longrightarrow> set_prop obj k v = obj @ [(k, v)]"
  by (induction obj) auto

lemma map_of_fold_set_prop:
  "distinct (map fst ps) \<Longrightarrow> map_of (fold write_prop ps obj) = map_of obj ++ map_of ps"
proof (induction ps arbitrary: obj)
  case Nil
  show ?case by simp
next
  case (Cons p ps)
  obtain k v where p: "p = (k, v)" by (cases p)
  from Cons.prems p have k: "map_of ps k = None" and d: "distinct (map fst ps)"
    by (auto simp: map_of_eq_None_iff)
  have "map_of (fold write_prop (p # ps) obj) = map_of (set_prop obj k v) ++ map_of ps"
    using Cons.IH[OF d, of "set_prop obj k v"] by (simp add: p)
  also have "\<dots> = map_of obj ++ map_of (p # ps)"
    using k by (auto simp: p map_of_set_prop fun_eq_iff map_add_def split: option.splits)
  finally show ?case .
qed

lemma distinct_fold_set_prop:
  "distinct (map fst obj) \<Longrightarrow> distinct (map fst (fold write_prop ps obj))"
  by (induction ps arbitrary: obj) (auto simp: distinct_set_prop)

lemma fold_set_prop_copy:
  "distinct (map fst (obj @ ps)) \<Longrightarrow> fold write_prop ps obj = obj @ ps"
proof (induction ps arbitrary: obj)
  case Nil
  show ?case by simp
next
  case (Cons p ps)
  obtain k v where p: "p = (k, v)" by (cases p)
  from Cons.prems p have "k \<notin> set (map fst obj)" by auto
  then have "set_prop obj k v = obj @ [p]" by (simp add: set_prop_fresh p)
  moreover from Cons.prems have "distinct (map fst ((obj @ [p]) @ ps))" by simp
  ultimately show ?case using Cons.IH[of "obj @ [p]"] by (simp add: p)
qed

lemma update_state_overwrite: "update_state u True w = w\<lparr>state := Ref u\<rparr>"
  by (simp add: update_state_def)

lemma update_state_same [simp]:
  "arrs (update_state u ow w) = arrs w"
  "listeners (update_state u ow w) = listeners w"
  "onListeners (update_state u ow w) = onListeners w"
  "trace (update_state u ow w) = trace w"
  by (simp_all add: update_state_def new_object_def assign_def)

lemma update_state_merge:
  "state (update_state u False w) = Ref (next_obj w)"
  "next_obj (update_state u False w) = Suc (next_obj w)"
  "p \<noteq> next_obj w \<Longrightarrow> objs (update_state u False w) p = objs w p"
  by (simp_all add: update_state_def new_object_def assign_def)

lemma update_state_merged:
  assumes "state w = Ref s" and "s \<noteq> next_obj w" and "u \<noteq> next_obj w"
  shows "objs (update_state u False w) (next_obj w) =
           fold write_prop (objs w u) (fold write_prop (objs w s) [])"
  using assms by (simp add: update_state_def new_object_def assign_def)

lemma update_state_keys: "u < next_obj w \<Longrightarrow> keys (update_state u ow w) u = keys w u"
  by (cases ow) (simp_all add: keys_def update_state_overwrite update_state_merge)

lemma quiet_slice_update_state [simp]: "quiet_slice (update_state u ow w) = quiet_slice w"
  by (rule ext) (simp add: quiet_slice_def split: option.splits)

lemma quiet_update_state [simp]: "quiet (update_state u ow w) ks = quiet w ks"
  by (simp add: quiet_def)

subsection \<open>Objects that existed before a run\<close>

lemma frame_refl [simp]: "frame w w"
  by (simp add: frame_def)

lemma frame_trans: "frame w w1 \<Longrightarrow> frame w1 w2 \<Longrightarrow> frame w w2"
  by (auto simp: frame_def)

lemma frame_trace [simp]: "frame w (w'\<lparr>trace := t\<rparr>) = frame w w'" "frame (w\<lparr>trace := t\<rparr>) w' = frame w w'"
  by (simp_all add: frame_def)

lemma frame_new_object: "frame w (snd (new_object obj w))"
  by (simp add: frame_def new_object_def)

lemma frame_subscribe: "frame w (subscribe l e w)"
  by (simp add: frame_def subscribe_def)

lemma frame_on: "frame w (on k l e w)"
  by (simp add: frame_def on_def Let_def split: option.splits)

lemma frame_update_state: "frame w (update_state u ow w)"
  by (simp add: frame_def update_state_def new_object_def assign_def)

lemma andThen_frame:
  assumes "andThen x k = Some (r, w2)"
    and "\<And>y w1. x = Some (y, w1) \<Longrightarrow> frame w w1"
    and "\<And>w1. x = Some (Done, w1) \<Longrightarrow> k w1 = Some (r, w2) \<Longrightarrow> frame w1 w2"
  shows "frame w w2"
proof (cases x)
  case None
  with assms(1) show ?thesis by (simp add: andThen_def)
next
  case (Some yw)
  obtain y w1 where yw: "yw = (y, w1)" by (cases yw)
  show ?thesis
  proof (cases y)
    case Done
    with assms(1) Some yw have "k w1 = Some (r, w2)" by (simp add: andThen_def)
    with assms(2)[of y w1] assms(3)[of w1] Some yw Done show ?thesis
      by (auto intro: frame_trans)
  next
    case Threw
    with assms(1) Some yw have "w2 = w1" by (simp add: andThen_def)
    with assms(2)[of y w1] Some yw show ?thesis by simp
  qed
qed

lemma run_frame: "run n t w = Some (r, w') \<Longrightarrow> frame w w'"
proof (induction n arbitrary: t w r w')
  case 0
  then show ?case by simp
next
  case (Suc n)
  note IH = Suc.IH
  show ?case
  proof (cases t)
    case (Exec cs)
    show ?thesis
    proof (cases cs)
      case Nil
      with Suc.prems Exec show ?thesis by simp
    next
      case (Cons c cs')
      let ?first = "case c of
          SetState U overwrite \<Rightarrow>
            (let (update, w1) = new_object U w in run n (SetStateT update overwrite) w1)
        | Subscribe listener effect \<Rightarrow> Some (Done, subscribe listener effect w)
        | On stateSlice callback effect \<Rightarrow> Some (Done, on stateSlice callback effect w)
        | GetState \<Rightarrow> Some (Done, w\<lparr>trace := trace w @ [Got (getState w)]\<rparr>)
        | Throw \<Rightarrow> Some (Threw, w\<lparr>trace := trace w @ [Raised]\<rparr>)"
      have first: "frame w w1" if "?first = Some (y, w1)" for y w1
      proof (cases c)
        case (SetState U ow)
        with that have "run n (SetStateT (fst (new_object U w)) ow) (snd (new_object U w)) = Some (y, w1)"
          by (simp add: case_prod_beta)
        from IH[OF this] frame_new_object[of w U] show ?thesis by (rule frame_trans[rotated])
      next
        case (Subscribe l e)
        with that show ?thesis by (auto simp: frame_subscribe)
      next
        case (On k l e)
        with that show ?thesis by (auto simp: frame_on)
      next
        case GetState
        with that show ?thesis by auto
      next
        case Throw
        with that show ?thesis by auto
      qed
      from Suc.prems Exec Cons have "andThen ?first (\<lambda>w'. run n (Exec cs') w') = Some (r, w')"
        by simp
      then show ?thesis
        by (rule andThen_frame) (auto intro: first IH)
    qed
  next
    case (Call f v)
    with Suc.prems have "run n (Exec (body f)) (w\<lparr>trace := trace w @ [Invoked (fname f) v]\<rparr>) = Some (r, w')"
      by simp
    from IH[OF this] show ?thesis by simp
  next
    case (SetStateT u ow)
    define w1 where "w1 = update_state u ow w"
    from Suc.prems SetStateT have
      "andThen (run n (LoopI (listeners w1) 0) w1) (\<lambda>w2. run n (LoopJ (keys w2 u)) w2) = Some (r, w')"
      by (simp add: w1_def Let_def)
    then have "frame w1 w'"
      by (rule andThen_frame) (auto intro: IH)
    with frame_update_state[of w u ow] show ?thesis
      unfolding w1_def by (rule frame_trans)
  next
    case (LoopI cur i)
    show ?thesis
    proof (cases "i < length (arrs w cur)")
      case True
      with Suc.prems LoopI have
        "andThen (run n (Call (li (arrs w cur ! i)) (state w)) w)
          (\<lambda>w1. andThen (run n (Call (ef (arrs w1 cur ! i)) (state w1)) w1)
            (\<lambda>w2. run n (LoopI cur (Suc i)) w2)) = Some (r, w')"
        by simp
      then show ?thesis
        by (rule andThen_frame) (auto intro: IH elim!: andThen_frame)
    next
      case False
      with Suc.prems LoopI show ?thesis by simp
    qed
  next
    case (LoopJ ks)
    show ?thesis
    proof (cases ks)
      case Nil
      with Suc.prems LoopJ show ?thesis by simp
    next
      case (Cons key ks')
      show ?thesis
      proof (cases "onListeners w key")
        case None
        with Suc.prems LoopJ Cons show ?thesis by (auto intro: IH)
      next
        case (Some ls)
        with Suc.prems LoopJ Cons have
          "andThen (run n (LoopK ls key 0) w) (\<lambda>w'. run n (LoopJ ks') w') = Some (r, w')"
          by simp
        then show ?thesis
          by (rule andThen_frame) (auto intro: IH)
      qed
    qed
  next
    case (LoopK ls key k)
    show ?thesis
    proof (cases "k < length (arrs w ls)")
      case True
      with Suc.prems LoopK have
        "andThen (run n (Call (li (arrs w ls ! k)) (get_prop w (state w) key)) w)
          (\<lambda>w1. andThen (run n (Call (ef (arrs w1 ls ! k)) (get_prop w1 (state w1) key)) w1)
            (\<lambda>w2. run n (LoopK ls key (Suc k)) w2)) = Some (r, w')"
        by simp
      then show ?thesis
        by (rule andThen_frame) (auto intro: IH elim!: andThen_frame)
    next
      case False
      with Suc.prems LoopK show ?thesis by simp
    qed
  qed
qed

subsection \<open>A fan-out pass over reading observers\<close>

lemma replay_reading:
  "list_all (\<lambda>c. c = GetState) cs \<Longrightarrow> replay s cs = (map (\<lambda>_. Got s) cs, Done)"
  by (induction cs) auto

lemma fire_reading: "reading_fn (fst c) \<Longrightarrow> fire s c = (announce s c, Done)"
  by (simp add: fire_def reading_fn_def announce_def replay_reading)

lemma play_reading:
  "list_all (\<lambda>c. reading_fn (fst c)) cs \<Longrightarrow> play s cs = (concat (map (announce s) cs), Done)"
  by (induction cs) (simp_all add: fire_reading)

lemma reading_fn_quiet: "reading_fn f \<Longrightarrow> quiet_fn f"
  unfolding reading_fn_def quiet_fn_def by (induction "body f") (auto simp: list_all_iff)

lemma reading_obs_quiet: "list_all reading_obs obs \<Longrightarrow> list_all quiet_obs obs"
  by (auto simp: list_all_iff reading_obs_def quiet_obs_def reading_fn_quiet)

lemma reading_quiet: "reading w ks \<Longrightarrow> quiet w ks"
  by (auto simp: reading_def quiet_def list_all_iff reading_slice_def quiet_slice_def
      reading_obs_def quiet_obs_def reading_fn_quiet split: option.splits)

lemma reading_calls:
  "list_all reading_obs obs \<Longrightarrow> list_all (\<lambda>c. reading_fn (fst c)) (calls obs v)"
  by (induction obs) (simp_all add: reading_obs_def)

lemma announce_calls: "concat (map (announce s) (calls obs v)) = concat (map (notify s v) obs)"
  by (induction obs) (simp_all add: notify_def)

lemma reading_slice_calls:
  "reading_slice w key \<Longrightarrow> list_all (\<lambda>c. reading_fn (fst c)) (slice_calls w key)"
  by (auto simp: reading_slice_def slice_calls_def reading_calls split: option.splits)

lemma announce_slice_calls:
  "concat (map (announce (state w)) (slice_calls w key)) = slice_events w key"
  by (simp add: slice_calls_def slice_events_def announce_calls split: option.splits)

lemma reading_schedule:
  assumes "reading w ks"
  shows "list_all (\<lambda>c. reading_fn (fst c)) (schedule w ks)"
proof -
  have "list_all (\<lambda>c. reading_fn (fst c)) (concat (map (slice_calls w) ks))"
    using assms unfolding reading_def
    by (induction ks) (simp_all add: reading_slice_calls)
  then show ?thesis using assms by (simp add: schedule_def reading_def reading_calls)
qed

lemma announce_schedule:
  "concat (map (announce (state w)) (schedule w ks)) = fanout w ks"
proof -
  have "concat (map (announce (state w)) (concat (map (slice_calls w) ks))) =
        concat (map (slice_events w) ks)"
    by (induction ks) (simp_all add: announce_slice_calls)
  then show ?thesis by (simp add: schedule_def fanout_def announce_calls)
qed

lemma reading_slice_update_state [simp]:
  "reading_slice (update_state u ow w) = reading_slice w"
  by (rule ext) (simp add: reading_slice_def split: option.splits)

lemma reading_update_state [simp]: "reading (update_state u ow w) ks = reading w ks"
  by (simp add: reading_def)

lemma finishes_setState_reading:
  assumes "w1 = update_state u ow w" and "reading w (keys w1 u)"
  shows "finishes (\<lambda>n. setState n u ow w) (Done, w1\<lparr>trace := trace w @ fanout w1 (keys w1 u)\<rparr>)"
proof -
  have p: "reading w1 (keys w1 u)"
    using assms by simp
  have "play (state w1) (schedule w1 (keys w1 u)) = (fanout w1 (keys w1 u), Done)"
    using play_reading[OF reading_schedule[OF p], of "state w1"] by (simp add: announce_schedule)
  with finishes_SetStateT_quiet[OF assms(1)] reading_quiet[OF p] assms(1)
  show ?thesis by simp
qed

subsection \<open>The example stores\<close>

lemma merge_store_simps:
  "state merge_store = Ref 0"
  "next_obj merge_store = 2"
  "objs merge_store 0 = [(''a'', Num 1), (''b'', Num 2)]"
  "objs merge_store (Suc 0) = [(''b'', Num 3), (''c'', Num 4)]"
  "listeners merge_store = 0"
  "arrs merge_store 0 = [\<lparr>li = Fn ''W'' [GetState], ef = noop\<rparr>]"
  "onListeners merge_store = Map.empty"
  "trace merge_store = []"
  by (simp_all add: merge_store_def new_object_def subscribe_def createStore_def)

lemma doc_store_simps:
  "state (doc_store U) = Ref 0"
  "next_obj (doc_store U) = 2"
  "objs (doc_store U) 0 = []"
  "objs (doc_store U) (Suc 0) = U"
  "listeners (doc_store U) = 0"
  "arrs (doc_store U) 0 = [\<lparr>li = Fn ''W'' [GetState], ef = noop\<rparr>]"
  "arrs (doc_store U) (Suc 0) = [\<lparr>li = Fn ''L'' [], ef = noop\<rparr>]"
  "onListeners (doc_store U) = [''a'' \<mapsto> Suc 0]"
  "trace (doc_store U) = []"
  by (simp_all add: doc_store_def new_object_def subscribe_def on_def createStore_def)

lemma unchanged_store_simps:
  "state unchanged_store = Ref 0"
  "next_obj unchanged_store = 2"
  "objs unchanged_store 0 = [(''a'', Num 1), (''b'', Num 2)]"
  "objs unchanged_store (Suc 0) = []"
  "listeners unchanged_store = 0"
  "arrs unchanged_store 0 = [\<lparr>li = Fn ''W'' [GetState], ef = noop\<rparr>]"
  "trace unchanged_store = []"
  by (simp_all add: unchanged_store_def new_object_def subscribe_def createStore_def)

lemma late_store_simps:
  "state late_store = Ref 0"
  "next_obj late_store = 2"
  "objs late_store 0 = []"
  "objs late_store (Suc 0) = []"
  "listeners late_store = 0"
  "arrs late_store 0 = [\<lparr>li = Fn ''A'' [Subscribe (Fn ''B'' []) None], ef = noop\<rparr>]"
  "onListeners late_store = Map.empty"
  "trace late_store = []"
  by (simp_all add: late_store_def new_object_def subscribe_def createStore_def)

lemma faulty_store_simps:
  "state faulty_store = Ref 0"
  "next_obj faulty_store = 2"
  "objs faulty_store 0 = []"
  "objs faulty_store (Suc 0) = [(''a'', Num 1)]"
  "listeners faulty_store = 0"
  "arrs faulty_store 0 = [\<lparr>li = Fn ''W'' [], ef = noop\<rparr>,
                          \<lparr>li = Fn ''T'' [GetState, Throw, GetState], ef = noop\<rparr>,
                          \<lparr>li = Fn ''V'' [], ef = noop\<rparr>]"
  "arrs faulty_store (Suc 0) = [\<lparr>li = Fn ''L'' [], ef = noop\<rparr>]"
  "onListeners faulty_store = [''a'' \<mapsto> Suc 0]"
  "trace faulty_store = []"
  by (simp_all add: faulty_store_def new_object_def subscribe_def on_def createStore_def)

subsection \<open>Exceptions end a run\<close>

lemma seals_refl [simp]: "seals t Done t"
  by (simp add: seals_def sealed_def)

lemma seals_trans: "seals t Done t1 \<Longrightarrow> seals t1 r t2 \<Longrightarrow> seals t r t2"
  by (cases r) (auto simp: seals_def sealed_def butlast_append)

lemma seals_quiet_event: "e \<noteq> Raised \<Longrightarrow> seals t Done (t @ [e])"
  by (simp add: seals_def sealed_def)

lemma seals_Raised: "seals t Threw (t @ [Raised])"
  by (simp add: seals_def sealed_def)

lemma andThen_seals:
  assumes "andThen x k = Some (r, w2)"
    and "\<And>y w1. x = Some (y, w1) \<Longrightarrow> seals t y (trace w1)"
    and "\<And>w1. x = Some (Done, w1) \<Longrightarrow> k w1 = Some (r, w2) \<Longrightarrow> seals (trace w1) r (trace w2)"
  shows "seals t r (trace w2)"
proof (cases x)
  case None
  with assms(1) show ?thesis by (simp add: andThen_def)
next
  case (Some yw)
  obtain y w1 where yw: "yw = (y, w1)" by (cases yw)
  show ?thesis
  proof (cases y)
    case Done
    with assms(1) Some yw have "k w1 = Some (r, w2)" by (simp add: andThen_def)
    with assms(2)[of y w1] assms(3)[of w1] Some yw Done show ?thesis
      by (auto intro: seals_trans)
  next
    case Threw
    with assms(1) Some yw have "w2 = w1" "r = Threw" by (simp_all add: andThen_def)
    with assms(2)[of y w1] Some yw Threw show ?thesis by simp
  qed
qed

lemma trace_new_object [simp]: "trace (snd (new_object U w)) = trace w"
  by (simp add: new_object_def)

lemma trace_subscribe [simp]: "trace (subscribe l e w) = trace w"
  by (simp add: subscribe_def)

lemma trace_on [simp]: "trace (on k l e w) = trace w"
  by (simp add: on_def Let_def split: option.splits)

lemma run_seals: "run n t w = Some (r, w') \<Longrightarrow> seals (trace w) r (trace w')"
proof (induction n arbitrary: t w r w')
  case 0
  then show ?case by simp
next
  case (Suc n)
  note IH = Suc.IH
  show ?case
  proof (cases t)
    case (Exec cs)
    show ?thesis
    proof (cases cs)
      case Nil
      with Suc.prems Exec show ?thesis by auto
    next
      case (Cons c cs')
      let ?first = "case c of
          SetState U overwrite \<Rightarrow>
            (let (update, w1) = new_object U w in run n (SetStateT update overwrite) w1)
        | Subscribe listener effect \<Rightarrow> Some (Done, subscribe listener effect w)
        | On stateSlice callback effect \<Rightarrow> Some (Done, on stateSlice callback effect w)
        | GetState \<Rightarrow> Some (Done, w\<lparr>trace := trace w @ [Got (getState w)]\<rparr>)
        | Throw \<Rightarrow> Some (Threw, w\<lparr>trace := trace w @ [Raised]\<rparr>)"
      have first: "seals (trace w) y (trace w1)" if "?first = Some (y, w1)" for y w1
      proof (cases c)
        case (SetState U ow)
        with that have "run n (SetStateT (fst (new_object U w)) ow) (snd (new_object U w)) = Some (y, w1)"
          by (simp add: case_prod_beta)
        from IH[OF this] show ?thesis by simp
      next
        case (Subscribe l e)
        with that show ?thesis by auto
      next
        case (On k l e)
        with that show ?thesis by auto
      next
        case GetState
        with that show ?thesis by (auto simp: seals_quiet_event)
      next
        case Throw
        with that show ?thesis by (auto simp: seals_Raised)
      qed
      from Suc.prems Exec Cons have "andThen ?first (\<lambda>w'. run n (Exec cs') w') = Some (r, w')"
        by simp
      then show ?thesis
        by (rule andThen_seals) (auto intro: first IH)
    qed
  next
    case (Call f v)
    with Suc.prems have "run n (Exec (body f)) (w\<lparr>trace := trace w @ [Invoked (fname f) v]\<rparr>) = Some (r, w')"
      by simp
    from IH[OF this] have "seals (trace w @ [Invoked (fname f) v]) r (trace w')" by simp
    with seals_quiet_event[of "Invoked (fname f) v" "trace w"] show ?thesis
      by (auto intro: seals_trans)
  next
    case (SetStateT u ow)
    define w1 where "w1 = update_state u ow w"
    from Suc.prems SetStateT have
      "andThen (run n (LoopI (listeners w1) 0) w1) (\<lambda>w2. run n (LoopJ (keys w2 u)) w2) = Some (r, w')"
      by (simp add: w1_def Let_def)
    then have "seals (trace w1) r (trace w')"
      by (rule andThen_seals) (auto intro: IH)
    then show ?thesis by (simp add: w1_def)
  next
    case (LoopI cur i)
    show ?thesis
    proof (cases "i < length (arrs w cur)")
      case True
      with Suc.prems LoopI have
        "andThen (run n (Call (li (arrs w cur ! i)) (state w)) w)
          (\<lambda>w1. andThen (run n (Call (ef (arrs w1 cur ! i)) (state w1)) w1)
            (\<lambda>w2. run n (LoopI cur (Suc i)) w2)) = Some (r, w')"
        by simp
      then show ?thesis
        by (rule andThen_seals) (auto intro: IH elim!: andThen_seals)
    next
      case False
      with Suc.prems LoopI show ?thesis by auto
    qed
  next
    case (LoopJ ks)
    show ?thesis
    proof (cases ks)
      case Nil
      with Suc.prems LoopJ show ?thesis by auto
    next
      case (Cons key ks')
      show ?thesis
      proof (cases "onListeners w key")
        case None
        with Suc.prems LoopJ Cons show ?thesis by (auto intro: IH)
      next
        case (Some ls)
        with Suc.prems LoopJ Cons have
          "andThen (run n (LoopK ls key 0) w) (\<lambda>w'. run n (LoopJ ks') w') = Some (r, w')"
          by simp
        then show ?thesis
          by (rule andThen_seals) (auto intro: IH)
      qed
    qed
  next
    case (LoopK ls key k)
    show ?thesis
    proof (cases "k < length (arrs w ls)")
      case True
      with Suc.prems LoopK have
        "andThen (run n (Call (li (arrs w ls ! k)) (get_prop w (state w) key)) w)
          (\<lambda>w1. andThen (run n (Call (ef (arrs w1 ls ! k)) (get_prop w1 (state w1) key)) w1)
            (\<lambda>w2. run n (LoopK ls key (Suc k)) w2)) = Some (r, w')"
        by simp
      then show ?thesis
        by (rule andThen_seals) (auto intro: IH elim!: andThen_seals)
    next
      case False
      with Suc.prems LoopK show ?thesis by auto
    qed
  qed
qed

lemma seals_unfold:
  assumes "seals t r t'"
  shows "\<exists>evs. t' = t @ evs \<and> (r = Threw \<longleftrightarrow> Raised \<in> set evs) \<and>
           (Raised \<in> set evs \<longrightarrow> last evs = Raised \<and> Raised \<notin> set (butlast evs))"
proof -
  from assms obtain evs where t: "t' = t @ evs" and s: "sealed r evs"
    by (auto simp: seals_def)
  have "(r = Threw \<longleftrightarrow> Raised \<in> set evs) \<and>
        (Raised \<in> set evs \<longrightarrow> last evs = Raised \<and> Raised \<notin> set (butlast evs))"
  proof (cases r)
    case Done
    with s show ?thesis by (simp add: sealed_def)
  next
    case Threw
    with s have "evs \<noteq> []" "last evs = Raised" "Raised \<notin> set (butlast evs)"
      by (simp_all add: sealed_def)
    moreover from this have "Raised \<in> set evs" by (metis last_in_set)
    ultimately show ?thesis using Threw by simp
  qed
  with t show ?thesis by blast
qed

subsection \<open>What a pass invokes and what it reads\<close>

lemma Invoked_announce: "Invoked nm v \<in> set (announce s c) \<Longrightarrow> nm = fname (fst c)"
  by (auto simp: announce_def)

lemma Invoked_notify:
  "Invoked nm v \<in> set (notify s x ob) \<Longrightarrow> nm = fname (li ob) \<or> nm = fname (ef ob)"
  by (auto simp: notify_def dest: Invoked_announce)

lemma Invoked_notifications:
  "Invoked nm v \<in> set (concat (map (notify s x) obs)) \<Longrightarrow> nm \<in> set (names_of obs)"
  by (induction obs) (auto simp: names_of_def dest: Invoked_notify)

lemma Invoked_slice_events:
  assumes "Invoked nm v \<in> set (slice_events w k)"
  shows "nm \<in> set (slice_names w k)"
proof (cases "onListeners w k")
  case None
  with assms show ?thesis by (simp add: slice_events_def)
next
  case (Some ls)
  with assms have
    "Invoked nm v \<in> set (concat (map (notify (state w) (get_prop w (state w) k)) (arrs w ls)))"
    by (simp add: slice_events_def)
  then have "nm \<in> set (names_of (arrs w ls))" by (rule Invoked_notifications)
  with Some show ?thesis by (simp add: slice_names_def)
qed

lemma Invoked_fanout:
  assumes "Invoked nm v \<in> set (fanout w ks)"
  shows "nm \<in> set (names_of (arrs w (listeners w))) \<or> (\<exists>k\<in>set ks. nm \<in> set (slice_names w k))"
proof (cases "Invoked nm v \<in> set (concat (map (notify (state w) (state w)) (arrs w (listeners w))))")
  case True
  then have "nm \<in> set (names_of (arrs w (listeners w)))" by (rule Invoked_notifications)
  then show ?thesis by simp
next
  case False
  with assms have "Invoked nm v \<in> set (concat (map (slice_events w) ks))"
    by (simp add: fanout_def)
  then obtain k where k: "k \<in> set ks" and "Invoked nm v \<in> set (slice_events w k)"
    by auto
  then have "nm \<in> set (slice_names w k)" by (intro Invoked_slice_events)
  with k show ?thesis by blast
qed

lemma slice_names_update_state [simp]: "slice_names (update_state u ow w) = slice_names w"
  by (rule ext) (simp add: slice_names_def split: option.splits)

lemma Got_replay: "Got v \<in> set (fst (replay s cs)) \<Longrightarrow> v = s"
  by (induction s cs rule: replay.induct) auto

lemma Got_fire: "Got v \<in> set (fst (fire s c)) \<Longrightarrow> v = s"
  by (auto simp: fire_def dest: Got_replay)

lemma Got_play: "Got v \<in> set (fst (play s cs)) \<Longrightarrow> v = s"
  by (induction cs) (auto dest: Got_fire split: if_splits)

lemma state_update_state: "state (update_state u ow w) = (if ow then Ref u else Ref (next_obj w))"
  by (simp add: update_state_overwrite update_state_merge)

subsection \<open>A pass that meets a throwing callback\<close>

lemma quiet_reading: "quiet_fn f \<Longrightarrow> Throw \<notin> set (body f) \<Longrightarrow> reading_fn f"
  unfolding quiet_fn_def reading_fn_def list_all_iff
proof
  fix c assume a: "\<forall>c\<in>set (body f). quiet_cmd c" "Throw \<notin> set (body f)" "c \<in> set (body f)"
  then have "quiet_cmd c" "c \<noteq> Throw" by auto
  then show "c = GetState" by (cases c) simp_all
qed

lemma replay_throw:
  "list_all quiet_cmd cs \<Longrightarrow> Throw \<in> set cs \<Longrightarrow>
   replay s cs = (map (\<lambda>_. Got s) (takeWhile (\<lambda>c. c \<noteq> Throw) cs) @ [Raised], Threw)"
proof (induction cs)
  case Nil
  then show ?case by simp
next
  case (Cons c cs)
  then show ?case by (cases c) auto
qed

lemma quiet_calls: "list_all quiet_obs obs \<Longrightarrow> list_all (\<lambda>c. quiet_fn (fst c)) (calls obs v)"
  by (induction obs) (simp_all add: quiet_obs_def)

lemma quiet_slice_calls:
  "quiet_slice w key \<Longrightarrow> list_all (\<lambda>c. quiet_fn (fst c)) (slice_calls w key)"
  by (cases "onListeners w key") (simp_all add: quiet_slice_def slice_calls_def quiet_calls)

lemma quiet_schedule:
  assumes "quiet w ks"
  shows "list_all (\<lambda>c. quiet_fn (fst c)) (schedule w ks)"
proof -
  have "list_all (\<lambda>c. quiet_fn (fst c)) (concat (map (slice_calls w) ks))"
    using assms unfolding quiet_def
    by (induction ks) (simp_all add: quiet_slice_calls)
  then show ?thesis using assms by (simp add: schedule_def quiet_def quiet_calls)
qed

lemma play_until_throw:
  assumes "list_all (\<lambda>c. reading_fn (fst c)) pre" and "quiet_fn f" and "Throw \<in> set (body f)"
  shows "play s (pre @ (f, v) # post) =
           (concat (map (announce s) pre) @
              Invoked (fname f) v # map (\<lambda>_. Got s) (takeWhile (\<lambda>c. c \<noteq> Throw) (body f)) @ [Raised],
            Threw)"
proof -
  have "fire s (f, v) =
      (Invoked (fname f) v # map (\<lambda>_. Got s) (takeWhile (\<lambda>c. c \<noteq> Throw) (body f)) @ [Raised], Threw)"
    using assms(2,3) by (simp add: fire_def quiet_fn_def replay_throw)
  then have "play s ((f, v) # post) =
      (Invoked (fname f) v # map (\<lambda>_. Got s) (takeWhile (\<lambda>c. c \<noteq> Throw) (body f)) @ [Raised], Threw)"
    by simp
  then show ?thesis
    using play_reading[OF assms(1), of s] by (simp add: play_append)
qed

section \<open>The claims\<close>

text \<open>
  C1. For a prior state \<open>S\<close> (the object at \<open>s\<close>) and an update \<open>U\<close> (the object at \<open>u\<close>),
  both with distinct keys, \<^verbatim>\<open>setState(U)\<close> without \<open>overwrite\<close> returns, and the new current
  state \<open>R\<close> has \<open>R[k] = U[k]\<close> for every key of \<open>U\<close>, \<open>R[k] = S[k]\<close> for every key of \<open>S\<close>
  that \<open>U\<close> lacks, and no other key. The observers reached by the call are quiet: they may
  read the state or throw, and do not call the store again (a nested \<^verbatim>\<open>setState\<close> would
  replace the state once more).
\<close>

theorem setState_merge:
  assumes "state w = Ref s" and "s < next_obj w" and "u < next_obj w"
    and "distinct (map fst (objs w s))" and "distinct (map fst (objs w u))"
    and "quiet w (keys w u)"
  shows "\<exists>r w' a. finishes (\<lambda>n. setState n u False w) (r, w') \<and> getState w' = Ref a \<and>
           (\<forall>k. map_of (objs w' a) k =
              (case map_of (objs w u) k of Some v \<Rightarrow> Some v | None \<Rightarrow> map_of (objs w s) k))"
proof -
  define w1 where "w1 = update_state u False w"
  define a where "a = next_obj w"
  have "keys w1 u = keys w u" using assms(3) by (simp add: w1_def update_state_keys)
  with assms(6) have "quiet w1 (keys w1 u)" by (simp add: w1_def)
  note fin = finishes_SetStateT_quiet[OF w1_def this]
  have m: "objs w1 a = fold write_prop (objs w u) (fold write_prop (objs w s) [])"
    unfolding w1_def a_def using assms(1-3) by (intro update_state_merged) simp_all
  have d: "distinct (map fst (fold write_prop (objs w s) []))"
    by (rule distinct_fold_set_prop) simp
  have "map_of (objs w1 a) = map_of (objs w s) ++ map_of (objs w u)"
    by (simp add: m map_of_fold_set_prop assms(4,5))
  then have "\<forall>k. map_of (objs w1 a) k =
      (case map_of (objs w u) k of Some v \<Rightarrow> Some v | None \<Rightarrow> map_of (objs w s) k)"
    by (simp add: map_add_def split: option.splits)
  moreover have "state w1 = Ref a" by (simp add: w1_def a_def update_state_merge)
  ultimately show ?thesis using fin
    by (auto simp: getState_def intro!: exI)
qed

theorem setState_merge_witness:
  "state merge_store = Ref 0 \<and> 0 < next_obj merge_store \<and> 1 < next_obj merge_store \<and>
   distinct (map fst (objs merge_store 0)) \<and> distinct (map fst (objs merge_store 1)) \<and>
   quiet merge_store (keys merge_store 1) \<and>
   (\<exists>r w' a. finishes (\<lambda>n. setState n 1 False merge_store) (r, w') \<and> getState w' = Ref a \<and>
      map_of (objs w' a) ''a'' = Some (Num 1) \<and> map_of (objs w' a) ''b'' = Some (Num 3) \<and>
      map_of (objs w' a) ''c'' = Some (Num 4) \<and> map_of (objs w' a) ''d'' = None)"
proof -
  have h: "state merge_store = Ref 0" "0 < next_obj merge_store" "1 < next_obj merge_store"
    "distinct (map fst (objs merge_store 0))" "distinct (map fst (objs merge_store 1))"
    "quiet merge_store (keys merge_store 1)"
    by (simp_all add: merge_store_simps quiet_def quiet_slice_def keys_def quiet_obs_def
        quiet_fn_def noop_def)
  from setState_merge[OF h] obtain r w' a where
    f: "finishes (\<lambda>n. setState n 1 False merge_store) (r, w')" "getState w' = Ref a"
    and m: "\<And>k. map_of (objs w' a) k =
              (case map_of (objs merge_store 1) k of Some v \<Rightarrow> Some v
               | None \<Rightarrow> map_of (objs merge_store 0) k)"
    by blast
  have "map_of (objs w' a) ''a'' = Some (Num 1)" "map_of (objs w' a) ''b'' = Some (Num 3)"
    "map_of (objs w' a) ''c'' = Some (Num 4)" "map_of (objs w' a) ''d'' = None"
    by (simp_all add: m merge_store_simps)
  with f h show ?thesis by blast
qed

text \<open>
  C2. \<^verbatim>\<open>setState(U, true)\<close> makes the update object itself the current state, whatever the
  prior state was: the new state is the reference \<open>u\<close>, and no object has changed, so its
  contents are exactly those of \<open>U\<close>.
\<close>

theorem setState_overwrite:
  assumes "quiet w (keys w u)"
  shows "\<exists>r w'. finishes (\<lambda>n. setState n u True w) (r, w') \<and>
           getState w' = Ref u \<and> objs w' = objs w"
proof -
  define w1 where "w1 = update_state u True w"
  have "keys w1 u = keys w u" by (simp add: w1_def keys_def update_state_overwrite)
  with assms have "quiet w1 (keys w1 u)" by (simp add: w1_def)
  from finishes_SetStateT_quiet[OF w1_def this] show ?thesis
    by (auto simp: w1_def update_state_overwrite getState_def intro!: exI)
qed

theorem setState_overwrite_witness:
  "quiet (doc_store [(''c'', Num 5)]) (keys (doc_store [(''c'', Num 5)]) 1) \<and>
   (\<exists>r w'. finishes (\<lambda>n. setState n 1 True (doc_store [(''c'', Num 5)])) (r, w') \<and>
      getState w' = Ref 1 \<and> objs w' 1 = [(''c'', Num 5)])"
proof -
  have h: "quiet (doc_store [(''c'', Num 5)]) (keys (doc_store [(''c'', Num 5)]) 1)"
    by (simp add: doc_store_simps quiet_def quiet_slice_def keys_def quiet_obs_def
        quiet_fn_def noop_def)
  from setState_overwrite[OF h] obtain r w' where
    f: "finishes (\<lambda>n. setState n 1 True (doc_store [(''c'', Num 5)])) (r, w')"
      "getState w' = Ref 1" and o: "objs w' = objs (doc_store [(''c'', Num 5)])"
    by blast
  have "objs w' 1 = [(''c'', Num 5)]" by (simp add: o doc_store_simps)
  with f h show ?thesis by blast
qed

text \<open>
  C3. The fan-out of every \<^verbatim>\<open>setState\<close> call has two phases, in this order: every whole-state
  observer in insertion order, \<^verbatim>\<open>_li\<close> then \<^verbatim>\<open>_ef\<close>, each with the new state; then, for each
  key of the update in its enumeration order that has an entry in \<^verbatim>\<open>onListeners\<close>, that key's
  observers in insertion order, \<^verbatim>\<open>_li\<close> then \<^verbatim>\<open>_ef\<close>, each with the new state's value at the
  key. This is the trace \<open>fanout\<close>, over the world the assignment of line 23 leaves; the
  observers only read the state. In the instance below it, \<^verbatim>\<open>setState({a: 1})\<close> invokes the
  subscriber \<open>W\<close> before the observer \<open>L\<close> of the key \<^verbatim>\<open>a\<close>.
\<close>

theorem setState_fanout_order:
  assumes "reading w (keys w u)" and "u < next_obj w"
  shows "finishes (\<lambda>n. setState n u ow w)
           (Done, (update_state u ow w)
                    \<lparr>trace := trace w @ fanout (update_state u ow w) (keys w u)\<rparr>)"
  using finishes_setState_reading[of "update_state u ow w" u ow w] assms
  by (simp add: update_state_keys)

theorem setState_fanout_order_witness:
  "reading (doc_store [(''a'', Num 1)]) (keys (doc_store [(''a'', Num 1)]) 1) \<and>
   1 < next_obj (doc_store [(''a'', Num 1)]) \<and>
   (\<exists>w'. finishes (\<lambda>n. setState n 1 False (doc_store [(''a'', Num 1)])) (Done, w') \<and>
      trace w' = [Invoked ''W'' (Ref 2), Got (Ref 2), Invoked ''noop'' (Ref 2),
                  Invoked ''L'' (Num 1), Invoked ''noop'' (Num 1)])"
proof -
  let ?w = "doc_store [(''a'', Num 1)]"
  have h: "reading ?w (keys ?w 1)" "1 < next_obj ?w"
    by (simp_all add: doc_store_simps reading_def reading_slice_def keys_def reading_obs_def
        reading_fn_def noop_def)
  have s: "state (update_state (Suc 0) False ?w) = Ref 2"
    using update_state_merge(1)[of "Suc 0" ?w] by (simp add: doc_store_simps)
  have m: "objs (update_state (Suc 0) False ?w) 2 = [(''a'', Num 1)]"
    using update_state_merged[of ?w 0 "Suc 0"] by (simp add: doc_store_simps)
  have f: "fanout (update_state 1 False ?w) (keys ?w 1) =
      [Invoked ''W'' (Ref 2), Got (Ref 2), Invoked ''noop'' (Ref 2),
       Invoked ''L'' (Num 1), Invoked ''noop'' (Num 1)]"
    by (simp add: fanout_def slice_events_def notify_def announce_def keys_def noop_def
        get_prop_def s m doc_store_simps)
  let ?t = "[Invoked ''W'' (Ref 2), Got (Ref 2), Invoked ''noop'' (Ref 2),
             Invoked ''L'' (Num 1), Invoked ''noop'' (Num 1)]"
  let ?w' = "(update_state 1 False ?w)\<lparr>trace := ?t\<rparr>"
  have "finishes (\<lambda>n. setState n 1 False ?w) (Done, ?w')"
    using setState_fanout_order[OF h, of False] f by (simp add: doc_store_simps)
  moreover have "trace ?w' = ?t" by simp
  ultimately have "\<exists>w'. finishes (\<lambda>n. setState n 1 False ?w) (Done, w') \<and> trace w' = ?t"
    by blast
  with h show ?thesis by blast
qed

text \<open>
  C4. The pass does not iterate a snapshot of the whole-state observer list:
  \<^verbatim>\<open>currentListeners = listeners\<close> copies the reference, \<^verbatim>\<open>subscribe\<close> pushes onto the same
  array, and the loop reads \<^verbatim>\<open>currentListeners.length\<close> at every step. Here the subscriber
  \<open>A\<close> subscribes \<open>B\<close> while it is notified by \<^verbatim>\<open>setState({})\<close>, and the same pass goes on to
  invoke \<open>B\<close>, which was not registered when the pass began.
\<close>

theorem setState_visits_late_subscriber:
  "\<exists>w'. setState 7 1 False late_store = Some (Done, w') \<and>
     trace w' = [Invoked ''A'' (Ref 2), Invoked ''noop'' (Ref 2),
                 Invoked ''B'' (Ref 2), Invoked ''noop'' (Ref 2)]"
  by (simp add: setState_def eval_nat_numeral late_store_simps update_state_def new_object_def
      assign_def keys_def andThen_def subscribe_def noop_def)

text \<open>
  C5. An exception thrown by an observer callback ends the \<^verbatim>\<open>setState\<close> call. First,
  whatever the callbacks do: a call that ends does so by an exception exactly when a callback
  has thrown (its trace holds \<open>Raised\<close>), and then \<open>Raised\<close> is the last event of the trace
  and occurs nowhere before, so no callback was invoked after the exception. Second, for quiet observers: when the invocations of the pass are \<open>pre\<close>, then
  \<open>f(v)\<close>, then \<open>post\<close>, nothing in \<open>pre\<close> throws and \<open>f\<close> does, the call returns by the
  exception, and its trace is that of \<open>pre\<close> followed by that of \<open>f\<close> up to its
  \<^verbatim>\<open>throw\<close>: nothing of \<open>post\<close>, in this phase or the next, is invoked.
\<close>

theorem setState_throw_aborts:
  "(setState n u ow w = Some (r, w') \<longrightarrow>
      (\<exists>evs. trace w' = trace w @ evs \<and> (r = Threw \<longleftrightarrow> Raised \<in> set evs) \<and>
         (Raised \<in> set evs \<longrightarrow> last evs = Raised \<and> Raised \<notin> set (butlast evs)))) \<and>
   (quiet w (keys w u) \<and> u < next_obj w \<and>
    schedule (update_state u ow w) (keys w u) = pre @ (f, v) # post \<and>
    list_all (\<lambda>c. Throw \<notin> set (body (fst c))) pre \<and> Throw \<in> set (body f) \<longrightarrow>
      finishes (\<lambda>n. setState n u ow w)
        (Threw, (update_state u ow w)
           \<lparr>trace := trace w @ concat (map (announce (state (update_state u ow w))) pre) @
              Invoked (fname f) v #
              map (\<lambda>_. Got (state (update_state u ow w))) (takeWhile (\<lambda>c. c \<noteq> Throw) (body f)) @
              [Raised]\<rparr>))"
proof (intro conjI impI)
  assume "setState n u ow w = Some (r, w')"
  then have "seals (trace w) r (trace w')"
    unfolding setState_def by (rule run_seals)
  then show "\<exists>evs. trace w' = trace w @ evs \<and> (r = Threw \<longleftrightarrow> Raised \<in> set evs) \<and>
         (Raised \<in> set evs \<longrightarrow> last evs = Raised \<and> Raised \<notin> set (butlast evs))"
    by (rule seals_unfold)
next
  define w1 where "w1 = update_state u ow w"
  assume a: "quiet w (keys w u) \<and> u < next_obj w \<and>
    schedule (update_state u ow w) (keys w u) = pre @ (f, v) # post \<and>
    list_all (\<lambda>c. Throw \<notin> set (body (fst c))) pre \<and> Throw \<in> set (body f)"
  then have k: "keys w1 u = keys w u" by (simp add: w1_def update_state_keys)
  from a have q: "quiet w1 (keys w1 u)" by (simp add: k) (simp add: w1_def)
  have sch: "schedule w1 (keys w1 u) = pre @ (f, v) # post"
    unfolding k using a by (simp add: w1_def)
  from quiet_schedule[OF q] have qs: "list_all (\<lambda>c. quiet_fn (fst c)) (pre @ (f, v) # post)"
    by (simp add: sch)
  then have "quiet_fn f" by simp
  moreover have "list_all (\<lambda>c. reading_fn (fst c)) pre"
    using qs a by (auto simp: list_all_iff intro: quiet_reading)
  ultimately have "play (state w1) (schedule w1 (keys w1 u)) =
      (concat (map (announce (state w1)) pre) @
         Invoked (fname f) v # map (\<lambda>_. Got (state w1)) (takeWhile (\<lambda>c. c \<noteq> Throw) (body f)) @ [Raised],
       Threw)"
    using a by (simp add: sch play_until_throw)
  with finishes_SetStateT_quiet[OF w1_def q]
  show "finishes (\<lambda>n. setState n u ow w)
        (Threw, (update_state u ow w)
           \<lparr>trace := trace w @ concat (map (announce (state (update_state u ow w))) pre) @
              Invoked (fname f) v #
              map (\<lambda>_. Got (state (update_state u ow w))) (takeWhile (\<lambda>c. c \<noteq> Throw) (body f)) @
              [Raised]\<rparr>)"
    by (simp add: w1_def)
qed

theorem setState_throw_aborts_witness:
  "quiet faulty_store (keys faulty_store 1) \<and> 1 < next_obj faulty_store \<and>
   schedule (update_state 1 False faulty_store) (keys faulty_store 1) =
     [(Fn ''W'' [], Ref 2), (noop, Ref 2)] @
     (Fn ''T'' [GetState, Throw, GetState], Ref 2) #
     [(noop, Ref 2), (Fn ''V'' [], Ref 2), (noop, Ref 2), (Fn ''L'' [], Num 1), (noop, Num 1)] \<and>
   list_all (\<lambda>c. Throw \<notin> set (body (fst c))) [(Fn ''W'' [], Ref 2), (noop, Ref 2)] \<and>
   Throw \<in> set (body (Fn ''T'' [GetState, Throw, GetState])) \<and>
   (\<exists>w'. finishes (\<lambda>n. setState n 1 False faulty_store) (Threw, w') \<and>
      trace w' = [Invoked ''W'' (Ref 2), Invoked ''noop'' (Ref 2),
                  Invoked ''T'' (Ref 2), Got (Ref 2), Raised]) \<and>
   (\<exists>n w' evs. setState n 1 False faulty_store = Some (Threw, w') \<and>
      trace w' = trace faulty_store @ evs \<and> Raised \<in> set evs \<and> last evs = Raised \<and>
      Raised \<notin> set (butlast evs))"
proof -
  let ?w = faulty_store
  let ?pre = "[(Fn ''W'' [], Ref 2), (noop, Ref 2)]"
  let ?f = "Fn ''T'' [GetState, Throw, GetState]"
  let ?post = "[(noop, Ref 2), (Fn ''V'' [], Ref 2), (noop, Ref 2), (Fn ''L'' [], Num 1),
                (noop, Num 1)]"
  let ?t = "[Invoked ''W'' (Ref 2), Invoked ''noop'' (Ref 2),
             Invoked ''T'' (Ref 2), Got (Ref 2), Raised]"
  have s: "state (update_state (Suc 0) False ?w) = Ref 2"
    using update_state_merge(1)[of "Suc 0" ?w] by (simp add: faulty_store_simps)
  have m: "objs (update_state (Suc 0) False ?w) 2 = [(''a'', Num 1)]"
    using update_state_merged[of ?w 0 "Suc 0"] by (simp add: faulty_store_simps)
  have h1: "quiet ?w (keys ?w 1)" and h2: "1 < next_obj ?w"
    by (simp_all add: faulty_store_simps quiet_def quiet_slice_def keys_def quiet_obs_def
        quiet_fn_def noop_def)
  have h3: "schedule (update_state 1 False ?w) (keys ?w 1) = ?pre @ (?f, Ref 2) # ?post"
    by (simp add: schedule_def slice_calls_def keys_def get_prop_def s m faulty_store_simps)
  have h4: "list_all (\<lambda>c. Throw \<notin> set (body (fst c))) ?pre" by (simp add: noop_def)
  have h5: "Throw \<in> set (body ?f)" by simp
  let ?w' = "(update_state 1 False ?w)\<lparr>trace := ?t\<rparr>"
  from setState_throw_aborts[THEN conjunct2, rule_format, OF conjI[OF h1 conjI[OF h2 conjI[OF h3 conjI[OF h4 h5]]]]]
  have fin: "finishes (\<lambda>n. setState n 1 False ?w) (Threw, ?w')"
    by (simp add: s announce_def noop_def faulty_store_simps)
  then obtain n where run: "setState n 1 False ?w = Some (Threw, ?w')"
    unfolding finishes_def by blast
  from setState_throw_aborts[THEN conjunct1, rule_format, OF run]
  obtain evs where "trace ?w' = trace ?w @ evs" "Raised \<in> set evs"
    "last evs = Raised" "Raised \<notin> set (butlast evs)"
    by auto
  with run have "\<exists>n w' evs. setState n 1 False ?w = Some (Threw, w') \<and>
      trace w' = trace ?w @ evs \<and> Raised \<in> set evs \<and> last evs = Raised \<and>
      Raised \<notin> set (butlast evs)"
    by blast
  moreover have "trace ?w' = ?t" by simp
  with fin have "\<exists>w'. finishes (\<lambda>n. setState n 1 False ?w) (Threw, w') \<and> trace w' = ?t"
    by blast
  ultimately show ?thesis using h1 h2 h3 h4 h5 by blast
qed

text \<open>
  C6. \<^verbatim>\<open>setState({})\<close> without \<open>overwrite\<close> leaves the state unchanged up to identity: the
  new state is a new object with the keys and values of the prior one, in the same order. Every
  whole-state observer is notified with it, and the trace holds nothing else, so no slice
  observer is invoked. The whole-state observers only read the state.
\<close>

theorem setState_empty_update:
  assumes "state w = Ref s" and "s < next_obj w" and "u < next_obj w"
    and "objs w u = []" and "distinct (map fst (objs w s))"
    and "list_all reading_obs (arrs w (listeners w))"
  shows "\<exists>w' a. finishes (\<lambda>n. setState n u False w) (Done, w') \<and>
           getState w' = Ref a \<and> objs w' a = objs w s \<and>
           trace w' = trace w @ concat (map (notify (Ref a) (Ref a)) (arrs w (listeners w)))"
proof -
  define w1 where "w1 = update_state u False w"
  define a where "a = next_obj w"
  have k: "keys w u = []" using assms(4) by (simp add: keys_def)
  then have r: "reading w (keys w u)" using assms(6) by (simp add: reading_def)
  have s1: "state w1 = Ref a" by (simp add: w1_def a_def update_state_merge)
  have "objs w1 a = fold write_prop (objs w u) (fold write_prop (objs w s) [])"
    unfolding w1_def a_def using assms(1-3) by (intro update_state_merged) simp_all
  also have "\<dots> = objs w s"
    using assms(4,5) fold_set_prop_copy[of "[]" "objs w s"] by simp
  finally have o: "objs w1 a = objs w s" .
  have f: "fanout w1 (keys w u) = concat (map (notify (Ref a) (Ref a)) (arrs w (listeners w)))"
    by (simp add: fanout_def k s1) (simp add: w1_def)
  let ?w' = "w1\<lparr>trace := trace w @ fanout w1 (keys w u)\<rparr>"
  have "finishes (\<lambda>n. setState n u False w) (Done, ?w')"
    using finishes_setState_reading[OF w1_def] r assms(3)
    by (simp add: w1_def update_state_keys)
  moreover have "getState ?w' = Ref a" by (simp add: getState_def s1)
  moreover have "objs ?w' a = objs w s" by (simp add: o)
  moreover have "trace ?w' = trace w @ concat (map (notify (Ref a) (Ref a)) (arrs w (listeners w)))"
    by (simp add: f)
  ultimately show ?thesis by blast
qed

theorem setState_empty_update_witness:
  "state unchanged_store = Ref 0 \<and> 0 < next_obj unchanged_store \<and>
   1 < next_obj unchanged_store \<and> objs unchanged_store 1 = [] \<and>
   distinct (map fst (objs unchanged_store 0)) \<and>
   list_all reading_obs (arrs unchanged_store (listeners unchanged_store)) \<and>
   (\<exists>w' a. finishes (\<lambda>n. setState n 1 False unchanged_store) (Done, w') \<and>
      getState w' = Ref a \<and> objs w' a = [(''a'', Num 1), (''b'', Num 2)] \<and>
      trace w' = [Invoked ''W'' (Ref a), Got (Ref a), Invoked ''noop'' (Ref a)])"
proof -
  have h: "state unchanged_store = Ref 0" "0 < next_obj unchanged_store"
    "1 < next_obj unchanged_store" "objs unchanged_store 1 = []"
    "distinct (map fst (objs unchanged_store 0))"
    "list_all reading_obs (arrs unchanged_store (listeners unchanged_store))"
    by (simp_all add: unchanged_store_simps reading_obs_def reading_fn_def noop_def)
  from setState_empty_update[OF h] obtain w' a where
    f: "finishes (\<lambda>n. setState n 1 False unchanged_store) (Done, w')" "getState w' = Ref a"
    and o: "objs w' a = objs unchanged_store 0"
    and t: "trace w' = trace unchanged_store @
              concat (map (notify (Ref a) (Ref a)) (arrs unchanged_store (listeners unchanged_store)))"
    by blast
  have "objs w' a = [(''a'', Num 1), (''b'', Num 2)]" by (simp add: o unchanged_store_simps)
  moreover have "trace w' = [Invoked ''W'' (Ref a), Got (Ref a), Invoked ''noop'' (Ref a)]"
    by (simp add: t unchanged_store_simps notify_def announce_def noop_def)
  ultimately show ?thesis using f h by blast
qed

text \<open>
  C7. An observer \<open>L\<close> registered for a key that the update does not contain is not invoked by
  the call, however many whole-state observers there are, and the call returns normally
  although keys of the update may have no observers. \<open>L\<close> is told apart by the name of its
  callback, which no whole-state observer and no observer of a key of the update bears; the
  observers only read the state.
\<close>

theorem setState_slice_isolation:
  assumes "reading w (keys w u)" and "u < next_obj w"
    and "key \<notin> set (keys w u)" and "onListeners w key = Some ls" and "L \<in> set (arrs w ls)"
    and "fname (li L) \<notin> set (names_of (arrs w (listeners w)))"
    and "\<forall>k\<in>set (keys w u). fname (li L) \<notin> set (slice_names w k)"
  shows "\<exists>w' evs. finishes (\<lambda>n. setState n u ow w) (Done, w') \<and> trace w' = trace w @ evs \<and>
           (\<forall>v. Invoked (fname (li L)) v \<notin> set evs)"
proof -
  define w1 where "w1 = update_state u ow w"
  let ?evs = "fanout w1 (keys w u)"
  let ?w' = "w1\<lparr>trace := trace w @ ?evs\<rparr>"
  have "finishes (\<lambda>n. setState n u ow w) (Done, ?w')"
    using finishes_setState_reading[OF w1_def] assms(1,2)
    by (simp add: w1_def update_state_keys)
  moreover have "trace ?w' = trace w @ ?evs" by simp
  moreover have "Invoked (fname (li L)) v \<notin> set ?evs" for v
  proof
    assume "Invoked (fname (li L)) v \<in> set ?evs"
    from Invoked_fanout[OF this] assms(6,7) show False
      by (auto simp: w1_def)
  qed
  ultimately show ?thesis by blast
qed

theorem setState_slice_isolation_witness:
  "reading (doc_store [(''b'', Num 2)]) (keys (doc_store [(''b'', Num 2)]) 1) \<and>
   1 < next_obj (doc_store [(''b'', Num 2)]) \<and>
   ''a'' \<notin> set (keys (doc_store [(''b'', Num 2)]) 1) \<and>
   onListeners (doc_store [(''b'', Num 2)]) ''a'' = Some 1 \<and>
   \<lparr>li = Fn ''L'' [], ef = noop\<rparr> \<in> set (arrs (doc_store [(''b'', Num 2)]) 1) \<and>
   ''L'' \<notin> set (names_of (arrs (doc_store [(''b'', Num 2)]) (listeners (doc_store [(''b'', Num 2)])))) \<and>
   list_all (\<lambda>k. ''L'' \<notin> set (slice_names (doc_store [(''b'', Num 2)]) k))
     (keys (doc_store [(''b'', Num 2)]) 1) \<and>
   (\<exists>w' evs. finishes (\<lambda>n. setState n 1 False (doc_store [(''b'', Num 2)])) (Done, w') \<and>
      trace w' = trace (doc_store [(''b'', Num 2)]) @ evs \<and>
      (\<forall>v. Invoked ''L'' v \<notin> set evs))"
proof -
  let ?w = "doc_store [(''b'', Num 2)]"
  let ?L = "\<lparr>li = Fn ''L'' [], ef = noop\<rparr>"
  have h: "reading ?w (keys ?w 1)" "1 < next_obj ?w" "''a'' \<notin> set (keys ?w 1)"
    "onListeners ?w ''a'' = Some 1" "?L \<in> set (arrs ?w 1)"
    "fname (li ?L) \<notin> set (names_of (arrs ?w (listeners ?w)))"
    "\<forall>k\<in>set (keys ?w 1). fname (li ?L) \<notin> set (slice_names ?w k)"
    by (simp_all add: doc_store_simps reading_def reading_slice_def keys_def reading_obs_def
        reading_fn_def noop_def names_of_def slice_names_def)
  from setState_slice_isolation[OF h, of False] h show ?thesis
    by (simp add: list_all_iff)
qed

text \<open>
  C8. The assignment to \<^verbatim>\<open>state\<close> comes before every notification: each value that
  \<^verbatim>\<open>getState()\<close> returns to a callback during the call is the new state, which is the update
  object under \<open>overwrite\<close> and otherwise an object allocated by this call (at \<open>next_obj w\<close>,
  so not the prior state's). The observers are quiet. In the instance below it, the subscriber
  \<open>W\<close> reads the new state \<open>Ref 2\<close>, and nothing reads the prior state \<open>Ref 0\<close>.
\<close>

theorem getState_in_callback:
  assumes "quiet w (keys w u)" and "u < next_obj w"
  shows "\<exists>r w' evs. finishes (\<lambda>n. setState n u ow w) (r, w') \<and> trace w' = trace w @ evs \<and>
           (\<forall>v. Got v \<in> set evs \<longrightarrow> v = (if ow then Ref u else Ref (next_obj w))) \<and>
           getState w' = (if ow then Ref u else Ref (next_obj w))"
proof -
  define w1 where "w1 = update_state u ow w"
  define p where "p = play (state w1) (schedule w1 (keys w1 u))"
  let ?w' = "w1\<lparr>trace := trace w1 @ fst p\<rparr>"
  have "quiet w1 (keys w1 u)" using assms by (simp add: w1_def update_state_keys)
  from finishes_SetStateT_quiet[OF w1_def this]
  have "finishes (\<lambda>n. setState n u ow w) (snd p, ?w')" by (simp add: p_def)
  moreover have "trace ?w' = trace w @ fst p" by (simp add: w1_def)
  moreover have "\<forall>v. Got v \<in> set (fst p) \<longrightarrow> v = (if ow then Ref u else Ref (next_obj w))"
    using Got_play[of _ "state w1" "schedule w1 (keys w1 u)"]
    by (simp add: p_def w1_def state_update_state)
  moreover have "getState ?w' = (if ow then Ref u else Ref (next_obj w))"
    by (simp add: getState_def w1_def state_update_state)
  ultimately show ?thesis by blast
qed

theorem getState_in_callback_witness:
  "quiet (doc_store [(''a'', Num 1)]) (keys (doc_store [(''a'', Num 1)]) 1) \<and>
   1 < next_obj (doc_store [(''a'', Num 1)]) \<and>
   (\<exists>r w' evs. finishes (\<lambda>n. setState n 1 False (doc_store [(''a'', Num 1)])) (r, w') \<and>
      trace w' = trace (doc_store [(''a'', Num 1)]) @ evs \<and>
      Got (Ref 2) \<in> set evs \<and> list_all (\<lambda>e. e \<noteq> Got (Ref 0)) evs \<and> getState w' = Ref 2)"
proof -
  let ?w = "doc_store [(''a'', Num 1)]"
  have h: "quiet ?w (keys ?w 1)" "1 < next_obj ?w"
    by (simp_all add: doc_store_simps quiet_def quiet_slice_def keys_def quiet_obs_def
        quiet_fn_def noop_def)
  from getState_in_callback[OF h, of False] obtain r w' evs where
    f: "finishes (\<lambda>n. setState n 1 False ?w) (r, w')" and t: "trace w' = trace ?w @ evs"
    and g: "\<forall>v. Got v \<in> set evs \<longrightarrow> v = Ref 2" and n: "getState w' = Ref 2"
    by (auto simp: doc_store_simps)
  have r: "reading ?w [''a'']"
    by (simp add: doc_store_simps reading_def reading_slice_def reading_obs_def
        reading_fn_def noop_def)
  have s: "state (update_state (Suc 0) False ?w) = Ref 2"
    using update_state_merge(1)[of "Suc 0" ?w] by (simp add: doc_store_simps)
  have k: "keys (update_state (Suc 0) False ?w) (Suc 0) = [''a'']"
    using update_state_keys[of "Suc 0" ?w False] by (simp add: doc_store_simps keys_def)
  from finishes_setState_reading[OF refl, of ?w "Suc 0" False] r
  have "finishes (\<lambda>n. setState n 1 False ?w)
     (Done, (update_state (Suc 0) False ?w)
        \<lparr>trace := trace ?w @ fanout (update_state (Suc 0) False ?w) [''a'']\<rparr>)"
    by (simp add: k doc_store_simps)
  from finishes_unique[OF f this] t
  have "evs = fanout (update_state (Suc 0) False ?w) [''a'']" by auto
  then have "Got (Ref 2) \<in> set evs"
    by (simp add: fanout_def notify_def announce_def s doc_store_simps)
  moreover from g have "list_all (\<lambda>e. e \<noteq> Got (Ref 0)) evs"
    by (auto simp: list_all_iff)
  ultimately show ?thesis using f t n h by blast
qed

text \<open>
  C9. No \<^verbatim>\<open>setState\<close> call changes an object that existed before the call. First, whatever
  the callbacks do (they may call \<^verbatim>\<open>setState\<close> again): when the call returns, normally or by
  an exception, the object at any address \<open>p\<close> allocated before the call has the contents it
  had, so a reference that \<^verbatim>\<open>getState()\<close> returned earlier still holds what it held. Second,
  for quiet observers the call does return, and the state it leaves is the update object itself
  under \<open>overwrite\<close> and otherwise an object at the address \<open>next_obj w\<close>, which the call
  allocated.
\<close>

theorem setState_keeps_objects:
  "(setState n u ow w = Some (r, w') \<and> p < next_obj w \<longrightarrow> objs w' p = objs w p) \<and>
   (quiet w (keys w u) \<and> u < next_obj w \<longrightarrow>
      (\<exists>r w'. finishes (\<lambda>n. setState n u ow w) (r, w') \<and>
         (\<forall>p<next_obj w. objs w' p = objs w p) \<and>
         getState w' = (if ow then Ref u else Ref (next_obj w))))"
proof (intro conjI impI)
  assume "setState n u ow w = Some (r, w') \<and> p < next_obj w"
  then show "objs w' p = objs w p"
    using run_frame[of n "SetStateT u ow" w r w'] by (simp add: setState_def frame_def)
next
  assume a: "quiet w (keys w u) \<and> u < next_obj w"
  define w1 where "w1 = update_state u ow w"
  define q where "q = play (state w1) (schedule w1 (keys w1 u))"
  let ?w' = "w1\<lparr>trace := trace w1 @ fst q\<rparr>"
  have "quiet w1 (keys w1 u)" using a by (simp add: w1_def update_state_keys)
  from finishes_SetStateT_quiet[OF w1_def this]
  have "finishes (\<lambda>n. setState n u ow w) (snd q, ?w')" by (simp add: q_def)
  moreover have "\<forall>p<next_obj w. objs ?w' p = objs w p"
    using frame_update_state[of w u ow] by (simp add: frame_def w1_def)
  moreover have "getState ?w' = (if ow then Ref u else Ref (next_obj w))"
    by (simp add: getState_def w1_def state_update_state)
  ultimately show "\<exists>r w'. finishes (\<lambda>n. setState n u ow w) (r, w') \<and>
         (\<forall>p<next_obj w. objs w' p = objs w p) \<and>
         getState w' = (if ow then Ref u else Ref (next_obj w))"
    by blast
qed

theorem setState_keeps_objects_witness:
  "quiet merge_store (keys merge_store 1) \<and> 1 < next_obj merge_store \<and>
   state merge_store = Ref 0 \<and> 0 < next_obj merge_store \<and>
   (\<exists>r w'. finishes (\<lambda>n. setState n 1 False merge_store) (r, w') \<and>
      objs w' 0 = [(''a'', Num 1), (''b'', Num 2)] \<and> getState w' = Ref 2) \<and>
   (\<exists>n r w'. setState n 1 False merge_store = Some (r, w') \<and>
      objs w' 0 = [(''a'', Num 1), (''b'', Num 2)])"
proof -
  have h: "quiet merge_store (keys merge_store 1)" "1 < next_obj merge_store"
    and s: "state merge_store = Ref 0" "0 < next_obj merge_store"
    by (simp_all add: merge_store_simps quiet_def quiet_slice_def keys_def quiet_obs_def
        quiet_fn_def noop_def)
  from setState_keeps_objects[THEN conjunct2, rule_format, OF conjI[OF h], of False]
  obtain r w' where f: "finishes (\<lambda>n. setState n 1 False merge_store) (r, w')"
    and o: "\<forall>p<next_obj merge_store. objs w' p = objs merge_store p"
    and g: "getState w' = Ref 2"
    by (auto simp: merge_store_simps)
  from o have o0: "objs w' 0 = [(''a'', Num 1), (''b'', Num 2)]"
    by (simp add: merge_store_simps)
  from f obtain n where run: "setState n 1 False merge_store = Some (r, w')"
    unfolding finishes_def by blast
  from setState_keeps_objects[THEN conjunct1, rule_format, OF conjI[OF run s(2)]]
  have "objs w' 0 = [(''a'', Num 1), (''b'', Num 2)]" by (simp add: merge_store_simps)
  with run f o0 g h s show ?thesis by blast
qed

text \<open>
  C10. \<^verbatim>\<open>createStore\<close> replaces every falsy \<open>initialState\<close> by a fresh empty object:
  afterwards \<^verbatim>\<open>getState()\<close> is a new reference whose object has no keys. The instance
  below it is \<^verbatim>\<open>createStore(x)\<close> for \<^verbatim>\<open>undefined\<close>, \<^verbatim>\<open>null\<close>, \<^verbatim>\<open>0\<close>, \<^verbatim>\<open>""\<close> and
  \<^verbatim>\<open>false\<close>.
\<close>

theorem createStore_falsy:
  "\<not> truthy x \<Longrightarrow>
     getState (createStore x os nx) = Ref nx \<and> objs (createStore x os nx) nx = []"
  by (simp add: createStore_def getState_def new_object_def)

theorem createStore_falsy_witness:
  "list_all (\<lambda>x. \<not> truthy x) [Undefined, Null, Num 0, Str '''', Bool False] \<and>
   list_all (\<lambda>x. getState (createStore x (\<lambda>_. []) 0) = Ref 0 \<and>
               objs (createStore x (\<lambda>_. []) 0) 0 = [])
     [Undefined, Null, Num 0, Str '''', Bool False]"
  using createStore_falsy[of Undefined "\<lambda>_. []" 0] createStore_falsy[of Null "\<lambda>_. []" 0]
    createStore_falsy[of "Num 0" "\<lambda>_. []" 0] createStore_falsy[of "Str ''''" "\<lambda>_. []" 0]
    createStore_falsy[of "Bool False" "\<lambda>_. []" 0]
  by simp

end
